theory Spec2Isabelle
  imports Complex_Main "HOL-Library.AList"
begin

section \<open>Strings\<close>

text \<open>
  The engine only compares strings, tests one for being the start of another and cuts a
  number of leading code units off. A string is modelled as a \<^typ>\<open>string\<close>; one
  \<^typ>\<open>char\<close> stands for one code unit of the source's strings.
\<close>

definition startsWith :: "string \<Rightarrow> string \<Rightarrow> bool" where
  "startsWith s p = (take (length p) s = p)"

definition substring :: "string \<Rightarrow> nat \<Rightarrow> string" where
  "substring s n = drop n s"

section \<open>Data model\<close>

text \<open>
  \<open>FillInAtCursorSuggestion\<close>, \<open>GhostPrompt\<close> and \<open>PendingSuggestion\<close> all carry a
  \<open>prefix\<close> and a \<open>suffix\<close>; the three records extend one record of these two fields so
  that the source's field names are kept.
\<close>

record Context =
  prefix :: string
  suffix :: string

record FillInAtCursorSuggestion = Context +
  "text" :: string

definition MAX_SUGGESTIONS_HISTORY :: nat where
  "MAX_SUGGESTIONS_HISTORY = 20"

section \<open>Suggestion matcher\<close>

text \<open>
  The loop of \<open>findMatchingSuggestion\<close> runs from the last index down to 0, so
  \<open>scanSuggestions\<close> takes the history reversed and looks at its head first.
\<close>

fun scanSuggestions :: "string \<Rightarrow> string \<Rightarrow> FillInAtCursorSuggestion list \<Rightarrow> string option" where
  "scanSuggestions p s [] = None"
| "scanSuggestions p s (fillInAtCursor # older) =
     (if p = prefix fillInAtCursor \<and> s = suffix fillInAtCursor then Some (text fillInAtCursor)
      else if text fillInAtCursor \<noteq> '''' \<and> startsWith p (prefix fillInAtCursor)
              \<and> s = suffix fillInAtCursor
              \<and> startsWith (text fillInAtCursor) (substring p (length (prefix fillInAtCursor)))
      then Some (substring (text fillInAtCursor)
                   (length (substring p (length (prefix fillInAtCursor)))))
      else scanSuggestions p s older)"

definition findMatchingSuggestion ::
  "string \<Rightarrow> string \<Rightarrow> FillInAtCursorSuggestion list \<Rightarrow> string option" where
  "findMatchingSuggestion p s suggestionsHistory = scanSuggestions p s (rev suggestionsHistory)"

record InlineCompletionItem =
  insertText :: string
  range :: "(nat \<times> nat) \<times> (nat \<times> nat)"

definition stringToInlineCompletions :: "string \<Rightarrow> nat \<times> nat \<Rightarrow> InlineCompletionItem list" where
  "stringToInlineCompletions t position =
     (if t = '''' then [] else [\<lparr>insertText = t, range = (position, position)\<rparr>])"

section \<open>Provider state\<close>

text \<open>
  \<open>GhostPrompt\<close>: the field \<open>autocompleteInput\<close> is an object the engine only hands
  on to the model; it is left out.
\<close>

record GhostPrompt = Context +
  systemPrompt :: string
  userPrompt :: string

text \<open>
  A promise and an abort controller are objects with an identity; both are modelled by the
  number under which the engine state knows them.
\<close>

record PendingSuggestion = Context +
  promise :: nat
  abortController :: nat

text \<open>A thrown value: whether it is an \<open>Error\<close> object, its \<open>name\<close> and its \<open>message\<close>.\<close>

datatype thrown = Thrown (instanceofError: bool) (errorName: string) (errorMessage: string)

definition isAbortError :: "thrown \<Rightarrow> bool" where
  "isAbortError e = (instanceofError e \<and> errorName e = ''AbortError'')"

record UsageInfo =
  cost :: real
  inputTokens :: real
  outputTokens :: real
  cacheWriteTokens :: real
  cacheReadTokens :: real

record LLMRetrievalResult = UsageInfo +
  suggestion :: FillInAtCursorSuggestion

text \<open>
  How a call of \<open>getFromLLM\<close> ends is decided outside the engine: it returns, with the text
  that \<open>processSuggestion\<close> left and the usage numbers of the model, or it throws.
  Both of its branches build the suggestion from the prefix and suffix of the prompt.
\<close>

datatype llm_outcome = Returns string UsageInfo | Throws thrown

definition getFromLLM_result :: "GhostPrompt \<Rightarrow> string \<Rightarrow> UsageInfo \<Rightarrow> LLMRetrievalResult" where
  "getFromLLM_result prompt t usageInfo =
     \<lparr>cost = cost usageInfo, inputTokens = inputTokens usageInfo,
      outputTokens = outputTokens usageInfo, cacheWriteTokens = cacheWriteTokens usageInfo,
      cacheReadTokens = cacheReadTokens usageInfo,
      suggestion = \<lparr>prefix = prefix prompt, suffix = suffix prompt, text = t\<rparr>\<rparr>"

datatype settled = Fulfilled LLMRetrievalResult | Rejected thrown

text \<open>
  A call of \<open>fetchAndCacheSuggestion\<close> is suspended at one of its two \<open>await\<close>s: on the
  promise of the request it reuses (\<open>Reuser\<close>, with the request and its own prompt) or on
  the promise of the request it created (\<open>Owner\<close>). The number is the call of
  \<open>debouncedFetchAndCacheSuggestion\<close> whose timer started it, and whose promise is resolved
  when it returns.
\<close>

datatype waiter = Owner nat | Reuser PendingSuggestion GhostPrompt nat

text \<open>
  A call of \<open>provideInlineCompletionItems_Internal\<close> is suspended on \<open>getPrompt\<close> or on the
  promise of its debounce call; it remembers the prefix, suffix and position it read.
\<close>

datatype invocation =
    AwaitPrompt string string "nat \<times> nat"
  | AwaitDebounce nat string string "nat \<times> nat"

datatype effect =
    CallGetFromLLM nat GhostPrompt
  | AbortSignal nat
  | ConsoleWarn thrown
  | ConsoleError thrown
  | CostTracking UsageInfo

text \<open>
  The first three fields are the fields of the class the engine uses. The others are the
  host: the armed timeouts with the prompt of their callback, the abort controllers whose
  signal is aborted, the calls of \<open>getFromLLM\<close> that have not ended, the suspended calls
  (in the order in which they began to wait), the debounce promises that are resolved,
  what each call of the provider returned, the effects seen from outside, and the
  next unused number.
\<close>

record provider =
  suggestionsHistory :: "FillInAtCursorSuggestion list"
  debounceTimer :: "nat option"
  pendingRequests :: "(string \<times> PendingSuggestion) list"
  timers :: "(nat \<times> GhostPrompt) list"
  aborted :: "nat set"
  inflight :: "(nat \<times> GhostPrompt) list"
  waiters :: "(nat \<times> waiter) list"
  invocations :: "(nat \<times> invocation) list"
  resolved :: "nat list"
  returned :: "(nat \<times> (thrown + InlineCompletionItem list)) list"
  trace :: "effect list"
  nextId :: nat

definition init :: provider where
  "init = \<lparr>suggestionsHistory = [], debounceTimer = None, pendingRequests = [], timers = [],
           aborted = {}, inflight = [], waiters = [], invocations = [], resolved = [],
           returned = [], trace = [], nextId = 0\<rparr>"

section \<open>Suggestion history\<close>

definition isDuplicate :: "FillInAtCursorSuggestion \<Rightarrow> FillInAtCursorSuggestion list \<Rightarrow> bool" where
  "isDuplicate fillInAtCursor h =
     list_ex (\<lambda>existing. text existing = text fillInAtCursor
                \<and> prefix existing = prefix fillInAtCursor
                \<and> suffix existing = suffix fillInAtCursor) h"

definition pushSuggestion ::
  "FillInAtCursorSuggestion \<Rightarrow> FillInAtCursorSuggestion list \<Rightarrow> FillInAtCursorSuggestion list" where
  "pushSuggestion fillInAtCursor h =
     (if isDuplicate fillInAtCursor h then h
      else if length (h @ [fillInAtCursor]) > MAX_SUGGESTIONS_HISTORY then tl (h @ [fillInAtCursor])
      else h @ [fillInAtCursor])"

definition updateSuggestions :: "FillInAtCursorSuggestion \<Rightarrow> provider \<Rightarrow> provider" where
  "updateSuggestions fillInAtCursor st =
     st\<lparr>suggestionsHistory := pushSuggestion fillInAtCursor (suggestionsHistory st)\<rparr>"

section \<open>Debounce scheduler\<close>

definition DEBOUNCE_DELAY_MS :: nat where
  "DEBOUNCE_DELAY_MS = 300"

definition clearTimeout :: "nat \<Rightarrow> provider \<Rightarrow> provider" where
  "clearTimeout t st = st\<lparr>timers := AList.delete t (timers st)\<rparr>"

text \<open>
  \<open>debouncedFetchAndCacheSuggestion\<close> clears the timer the field holds and arms a new one;
  the new timer's number also names the promise the call returns, which only the timer's
  callback resolves. The delay itself is not modelled: the timer fires when the
  environment says so, or never.
\<close>

definition debouncedFetchAndCacheSuggestion :: "GhostPrompt \<Rightarrow> provider \<Rightarrow> nat \<times> provider" where
  "debouncedFetchAndCacheSuggestion prompt st =
     (let st1 = (case debounceTimer st of Some t \<Rightarrow> clearTimeout t st | None \<Rightarrow> st);
          d = nextId st1
      in (d, st1\<lparr>debounceTimer := Some d, timers := timers st1 @ [(d, prompt)], nextId := Suc d\<rparr>))"

section \<open>Request coordinator\<close>

definition getCacheKey :: "string \<Rightarrow> string \<Rightarrow> string" where
  "getCacheKey p s = p @ ''|||'' @ s"

text \<open>
  \<open>pendingRequests\<close> is a \<open>Map\<close>: an association list in insertion order, where
  \<open>set\<close> on a key that is present keeps its place (\<^const>\<open>AList.update\<close>), and
  \<open>delete\<close> is \<^const>\<open>AList.delete\<close>.
\<close>

fun scanPending :: "string \<Rightarrow> string \<Rightarrow> (string \<times> PendingSuggestion) list \<Rightarrow> PendingSuggestion option" where
  "scanPending p s [] = None"
| "scanPending p s ((key, pending) # rest) =
     (if suffix pending = s \<and> startsWith p (prefix pending) then Some pending
      else scanPending p s rest)"

definition findReusablePendingRequest ::
  "string \<Rightarrow> string \<Rightarrow> (string \<times> PendingSuggestion) list \<Rightarrow> PendingSuggestion option" where
  "findReusablePendingRequest p s pendingMap =
     (case map_of pendingMap (getCacheKey p s) of
        Some exactMatch \<Rightarrow> Some exactMatch
      | None \<Rightarrow> scanPending p s pendingMap)"

definition isObsolete :: "string \<Rightarrow> string \<Rightarrow> PendingSuggestion \<Rightarrow> bool" where
  "isObsolete p s pending =
     (suffix pending \<noteq> s \<or> (\<not> startsWith p (prefix pending) \<and> \<not> startsWith (prefix pending) p))"

text \<open>The loop of lines 680-689 over the entries of the map.\<close>

fun cancelObsolete :: "string \<Rightarrow> string \<Rightarrow> (string \<times> PendingSuggestion) list \<Rightarrow> provider \<Rightarrow> provider" where
  "cancelObsolete p s [] st = st"
| "cancelObsolete p s ((key, pending) # rest) st =
     cancelObsolete p s rest
       (if isObsolete p s pending
        then st\<lparr>aborted := insert (abortController pending) (aborted st),
                trace := trace st @ [AbortSignal (abortController pending)],
                pendingRequests := AList.delete key (pendingRequests st)\<rparr>
        else st)"

text \<open>
  Lines 691-737: the new controller, the start of the request (its body runs up to the
  call of \<open>getFromLLM\<close>; the controller is new, so the check before it is false), the
  entry in the map, and the wait for the promise.
\<close>

definition createRequest :: "GhostPrompt \<Rightarrow> nat \<Rightarrow> provider \<Rightarrow> provider" where
  "createRequest prompt d st =
     (let n = nextId st in
      st\<lparr>trace := trace st @ [CallGetFromLLM n prompt],
         inflight := inflight st @ [(n, prompt)],
         pendingRequests :=
           AList.update (getCacheKey (prefix prompt) (suffix prompt))
             \<lparr>prefix = prefix prompt, suffix = suffix prompt, promise = n, abortController = n\<rparr>
             (pendingRequests st),
         waiters := waiters st @ [(n, Owner d)],
         nextId := Suc n\<rparr>)"

definition startNewRequest :: "GhostPrompt \<Rightarrow> nat \<Rightarrow> provider \<Rightarrow> provider" where
  "startNewRequest prompt d st =
     createRequest prompt d
       (cancelObsolete (prefix prompt) (suffix prompt) (pendingRequests st) st)"

text \<open>\<open>fetchAndCacheSuggestion\<close> up to its first \<open>await\<close>.\<close>

definition fetchAndCacheSuggestion :: "GhostPrompt \<Rightarrow> nat \<Rightarrow> provider \<Rightarrow> provider" where
  "fetchAndCacheSuggestion prompt d st =
     (case findReusablePendingRequest (prefix prompt) (suffix prompt) (pendingRequests st) of
        Some reusable \<Rightarrow> st\<lparr>waiters := waiters st @ [(promise reusable, Reuser reusable prompt d)]\<rparr>
      | None \<Rightarrow> startNewRequest prompt d st)"

text \<open>
  The body of the request after \<open>getFromLLM\<close> has ended (lines 701-725): what its promise
  settles with, and the state after the \<open>finally\<close> block.
\<close>

definition cleanupPending :: "GhostPrompt \<Rightarrow> provider \<Rightarrow> provider" where
  "cleanupPending prompt st =
     st\<lparr>pendingRequests :=
          AList.delete (getCacheKey (prefix prompt) (suffix prompt)) (pendingRequests st)\<rparr>"

definition settleRequest :: "nat \<Rightarrow> GhostPrompt \<Rightarrow> llm_outcome \<Rightarrow> provider \<Rightarrow> settled \<times> provider" where
  "settleRequest n prompt outcome st =
     (case outcome of
        Throws e \<Rightarrow> (Rejected e, cleanupPending prompt st)
      | Returns t usageInfo \<Rightarrow>
          if n \<in> aborted st
          then (Rejected (Thrown True ''Error'' ''Request aborted after completion''),
                cleanupPending prompt st)
          else
            let result = getFromLLM_result prompt t usageInfo;
                st1 = (if cost result > 0
                       then st\<lparr>trace := trace st @ [CostTracking usageInfo]\<rparr> else st)
            in (Fulfilled result,
                cleanupPending prompt (updateSuggestions (suggestion result) st1)))"

text \<open>
  When \<open>fetchAndCacheSuggestion\<close> returns, the timer's callback resolves the promise of
  its debounce call.
\<close>

definition finish :: "nat \<Rightarrow> provider \<Rightarrow> provider" where
  "finish d st = st\<lparr>resolved := resolved st @ [d]\<rparr>"

text \<open>
  A suspended call goes on when the promise it waits for has settled: lines 738-744 for
  the owner, lines 647-676 for a call that reuses the request, which falls through to
  line 679 when the promise was rejected with anything but an \<open>AbortError\<close>.
\<close>

fun resumeWaiter :: "settled \<Rightarrow> waiter \<Rightarrow> provider \<Rightarrow> provider" where
  "resumeWaiter (Fulfilled result) (Owner d) st = finish d st"
| "resumeWaiter (Rejected e) (Owner d) st =
     (if isAbortError e then finish d st
      else finish d (st\<lparr>trace := trace st @ [ConsoleError e]\<rparr>))"
| "resumeWaiter (Fulfilled result) (Reuser reusable prompt d) st =
     (if abortController reusable \<in> aborted st then finish d st
      else if startsWith (prefix prompt) (prefix reusable) \<and> prefix prompt \<noteq> prefix reusable
              \<and> startsWith (text (suggestion result))
                    (substring (prefix prompt) (length (prefix reusable)))
      then finish d
             (updateSuggestions
                \<lparr>prefix = prefix prompt, suffix = suffix prompt,
                 text = substring (text (suggestion result))
                          (length (substring (prefix prompt) (length (prefix reusable))))\<rparr> st)
      else finish d (updateSuggestions (suggestion result) st))"
| "resumeWaiter (Rejected e) (Reuser reusable prompt d) st =
     (if isAbortError e then finish d st
      else startNewRequest prompt d (st\<lparr>trace := trace st @ [ConsoleWarn e]\<rparr>))"

section \<open>Provider facade and disposal\<close>

fun isReady :: "provider \<Rightarrow> invocation \<Rightarrow> bool" where
  "isReady st (AwaitPrompt p s position) = False"
| "isReady st (AwaitDebounce d p s position) = (d \<in> set (resolved st))"

text \<open>Lines 588-589: the second look into the history, and the list returned.\<close>

fun completionsAfterFetch :: "provider \<Rightarrow> invocation \<Rightarrow> InlineCompletionItem list" where
  "completionsAfterFetch st (AwaitPrompt p s position) = []"
| "completionsAfterFetch st (AwaitDebounce d p s position) =
     stringToInlineCompletions
       (case findMatchingSuggestion p s (suggestionsHistory st) of
          None \<Rightarrow> '''' | Some cachedText \<Rightarrow> cachedText) position"

definition returnResolved :: "provider \<Rightarrow> provider" where
  "returnResolved st =
     st\<lparr>invocations := filter (\<lambda>(i, call). \<not> isReady st call) (invocations st),
        returned := returned st @
          map (\<lambda>(i, call). (i, Inr (completionsAfterFetch st call)))
            (filter (\<lambda>(i, call). isReady st call) (invocations st))\<rparr>"

text \<open>
  \<open>getFromLLM\<close> of request \<open>n\<close> ends: the body of the request runs to its end, then
  the calls that wait for its promise go on, in the order in which they began to wait,
  and then the calls of the provider whose debounce promise is now resolved.
\<close>

definition llmSettles :: "nat \<Rightarrow> llm_outcome \<Rightarrow> provider \<Rightarrow> provider" where
  "llmSettles n outcome st =
     (case map_of (inflight st) n of
        None \<Rightarrow> st
      | Some prompt \<Rightarrow>
          (case settleRequest n prompt outcome (st\<lparr>inflight := AList.delete n (inflight st)\<rparr>) of
             (v, st1) \<Rightarrow>
               returnResolved
                 (fold (resumeWaiter v) (map snd (filter (\<lambda>(i, w). i = n) (waiters st1)))
                    (st1\<lparr>waiters := filter (\<lambda>(i, w). i \<noteq> n) (waiters st1)\<rparr>))))"

text \<open>The callback of the timer (lines 598-602), up to the first \<open>await\<close> of the fetch.\<close>

definition timerFires :: "nat \<Rightarrow> provider \<Rightarrow> provider" where
  "timerFires t st =
     (case map_of (timers st) t of
        None \<Rightarrow> st
      | Some prompt \<Rightarrow>
          fetchAndCacheSuggestion prompt t
            (st\<lparr>timers := AList.delete t (timers st), debounceTimer := None\<rparr>))"

fun abortAll :: "(string \<times> PendingSuggestion) list \<Rightarrow> provider \<Rightarrow> provider" where
  "abortAll [] st = st"
| "abortAll ((key, pending) # rest) st =
     abortAll rest
       (st\<lparr>aborted := insert (abortController pending) (aborted st),
           trace := trace st @ [AbortSignal (abortController pending)]\<rparr>)"

text \<open>
  \<open>dispose\<close>; the two tracking services it disposes last are outside the engine.
\<close>

definition dispose :: "provider \<Rightarrow> provider" where
  "dispose st =
     (let st1 = (case debounceTimer st of
                   Some t \<Rightarrow> (clearTimeout t st)\<lparr>debounceTimer := None\<rparr>
                 | None \<Rightarrow> st)
      in (abortAll (pendingRequests st1) st1)\<lparr>pendingRequests := []\<rparr>)"

text \<open>
  \<open>provideInlineCompletionItems_Internal\<close> from line 577 on. \<open>gate\<close> says whether the
  checks of lines 547-575 (a model is there, the file is not ignored) let the call pass;
  prefix, suffix and position are what \<open>extractPrefixSuffix\<close> read.
\<close>

definition provide :: "bool \<Rightarrow> string \<Rightarrow> string \<Rightarrow> nat \<times> nat \<Rightarrow> provider \<Rightarrow> provider" where
  "provide gate p s position st =
     (let i = nextId st; st1 = st\<lparr>nextId := Suc i\<rparr> in
      if \<not> gate then st1\<lparr>returned := returned st1 @ [(i, Inr [])]\<rparr>
      else case findMatchingSuggestion p s (suggestionsHistory st) of
        Some matchingText \<Rightarrow>
          st1\<lparr>returned := returned st1 @ [(i, Inr (stringToInlineCompletions matchingText position))]\<rparr>
      | None \<Rightarrow> st1\<lparr>invocations := invocations st1 @ [(i, AwaitPrompt p s position)]\<rparr>)"

text \<open>\<open>getPrompt\<close> of call \<open>i\<close> has ended: line 586 runs, or the call fails with what was thrown.\<close>

definition promptResolves :: "nat \<Rightarrow> GhostPrompt \<Rightarrow> provider \<Rightarrow> provider" where
  "promptResolves i prompt st =
     (case map_of (invocations st) i of
        Some (AwaitPrompt p s position) \<Rightarrow>
          (case debouncedFetchAndCacheSuggestion prompt st of
             (d, st1) \<Rightarrow>
               st1\<lparr>invocations := AList.update i (AwaitDebounce d p s position) (invocations st1)\<rparr>)
      | _ \<Rightarrow> st)"

definition promptRejects :: "nat \<Rightarrow> thrown \<Rightarrow> provider \<Rightarrow> provider" where
  "promptRejects i e st =
     (case map_of (invocations st) i of
        Some (AwaitPrompt p s position) \<Rightarrow>
          st\<lparr>invocations := AList.delete i (invocations st),
             returned := returned st @ [(i, Inl e)]\<rparr>
      | _ \<Rightarrow> st)"

section \<open>Runs\<close>

datatype event =
    Provide bool string string "nat \<times> nat"
  | PromptResolves nat GhostPrompt
  | PromptRejects nat thrown
  | TimerFires nat
  | LlmSettles nat llm_outcome
  | Dispose

fun step :: "event \<Rightarrow> provider \<Rightarrow> provider" where
  "step (Provide gate p s position) st = provide gate p s position st"
| "step (PromptResolves i prompt) st = promptResolves i prompt st"
| "step (PromptRejects i e) st = promptRejects i e st"
| "step (TimerFires t) st = timerFires t st"
| "step (LlmSettles n outcome) st = llmSettles n outcome st"
| "step Dispose st = dispose st"

definition run :: "event list \<Rightarrow> provider \<Rightarrow> provider" where
  "run es st = fold step es st"

section \<open>Specification-level notions\<close>

text \<open>
  The two ways in which an entry of the history answers a context, in the words of the
  specification: the exact match, and the typed-ahead match, where the entry's text is not
  empty, the suffixes agree, the prefix goes on from the entry's prefix, and the entry's
  text begins with what was typed since.
\<close>

definition exactHit :: "string \<Rightarrow> string \<Rightarrow> FillInAtCursorSuggestion \<Rightarrow> bool" where
  "exactHit p s e = (prefix e = p \<and> suffix e = s)"

definition typedAheadHit :: "string \<Rightarrow> string \<Rightarrow> FillInAtCursorSuggestion \<Rightarrow> bool" where
  "typedAheadHit p s e =
     (text e \<noteq> '''' \<and> suffix e = s \<and> startsWith p (prefix e)
      \<and> startsWith (text e) (drop (length (prefix e)) p))"

text \<open>The calls of \<open>getFromLLM\<close> among the effects: the calls of the fetch adapter.\<close>

fun isFetchCall :: "effect \<Rightarrow> bool" where
  "isFetchCall (CallGetFromLLM n prompt) = True"
| "isFetchCall (AbortSignal n) = False"
| "isFetchCall (ConsoleWarn e) = False"
| "isFetchCall (ConsoleError e) = False"
| "isFetchCall (CostTracking usageInfo) = False"

definition fetchCalls :: "provider \<Rightarrow> effect list" where
  "fetchCalls st = filter isFetchCall (trace st)"

fun waiterDebounce :: "waiter \<Rightarrow> nat" where
  "waiterDebounce (Owner d) = d"
| "waiterDebounce (Reuser reusable prompt d) = d"

section \<open>Invariants of the engine state\<close>

definition histOk :: "provider \<Rightarrow> bool" where
  "histOk st = (length (suggestionsHistory st) \<le> MAX_SUGGESTIONS_HISTORY \<and> distinct (suggestionsHistory st))"

text \<open>
  Every entry of the map stands under the key of its own prefix and suffix, its promise
  and controller are those of one request, and that request's \<open>getFromLLM\<close> has not ended.
\<close>

definition regOk :: "provider \<Rightarrow> bool" where
  "regOk st =
     (distinct (map fst (pendingRequests st))
      \<and> (\<forall>(k, e) \<in> set (pendingRequests st).
            k = getCacheKey (prefix e) (suffix e) \<and> abortController e = promise e
            \<and> (\<exists>prompt. map_of (inflight st) (promise e) = Some prompt
                  \<and> prefix prompt = prefix e \<and> suffix prompt = suffix e))
      \<and> (\<forall>(n, prompt) \<in> set (inflight st). n < nextId st))"

definition waiterOk :: "provider \<Rightarrow> waiter \<Rightarrow> bool" where
  "waiterOk st w = (waiterDebounce w < nextId st \<and> debounceTimer st \<noteq> Some (waiterDebounce w))"

text \<open>
  The only armed timer is the one the field holds, and a debounce call whose timer has
  fired is not the one the field holds.
\<close>

definition timOk :: "provider \<Rightarrow> bool" where
  "timOk st =
     ((\<forall>(t, prompt) \<in> set (timers st). debounceTimer st = Some t)
      \<and> (\<forall>t. debounceTimer st = Some t \<longrightarrow> t < nextId st)
      \<and> (\<forall>(n, w) \<in> set (waiters st). waiterOk st w)
      \<and> (\<forall>d \<in> set (resolved st). d < nextId st \<and> debounceTimer st \<noteq> Some d))"

definition invOk :: "provider \<Rightarrow> bool" where
  "invOk st =
     (distinct (map fst (invocations st))
      \<and> (\<forall>(i, v) \<in> set (invocations st). i < nextId st)
      \<and> (\<forall>(i, r) \<in> set (returned st). i < nextId st \<and> i \<notin> fst ` set (invocations st)))"

text \<open>
  Debounce call \<open>d\<close> is superseded and call \<open>i\<close> of the provider waits for it: the timer
  of \<open>d\<close> is not armed and has not fired, its promise is not resolved, and \<open>i\<close> is
  suspended on it and has returned nothing.
\<close>

definition superseded :: "nat \<Rightarrow> nat \<Rightarrow> string \<Rightarrow> string \<Rightarrow> nat \<times> nat \<Rightarrow> provider \<Rightarrow> bool" where
  "superseded d i p s position st =
     (d < nextId st \<and> i < nextId st
      \<and> d \<notin> fst ` set (timers st) \<and> debounceTimer st \<noteq> Some d
      \<and> (\<forall>x \<in> set (waiters st). waiterDebounce (snd x) \<noteq> d)
      \<and> d \<notin> set (resolved st)
      \<and> (i, AwaitDebounce d p s position) \<in> set (invocations st)
      \<and> (\<forall>x \<in> set (invocations st). fst x = i \<longrightarrow> snd x = AwaitDebounce d p s position)
      \<and> i \<notin> fst ` set (returned st))"

text \<open>
  A call that waits for a request it reuses: the request is the one of the promise it
  waits for, that request's \<open>getFromLLM\<close> has not ended and was called with the request's
  prefix and suffix, and the request was found by \<open>findReusablePendingRequest\<close> in a map
  whose entries stand under their own keys.
\<close>

fun reuserOk :: "provider \<Rightarrow> nat \<Rightarrow> waiter \<Rightarrow> bool" where
  "reuserOk st n (Owner d) = True"
| "reuserOk st n (Reuser reusable prompt d) =
     (promise reusable = n \<and> abortController reusable = n
      \<and> (\<exists>prompt0. map_of (inflight st) n = Some prompt0
             \<and> prefix prompt0 = prefix reusable \<and> suffix prompt0 = suffix reusable)
      \<and> (\<exists>pendingMap. (\<forall>(k, e) \<in> set pendingMap. k = getCacheKey (prefix e) (suffix e))
             \<and> findReusablePendingRequest (prefix prompt) (suffix prompt) pendingMap = Some reusable))"

definition waitOk :: "provider \<Rightarrow> bool" where
  "waitOk st = (\<forall>(n, w) \<in> set (waiters st). reuserOk st n w)"

section \<open>Scenarios\<close>

text \<open>The document of the tests: a first line that is edited, and a second line after it.\<close>

definition testSuffix :: string where
  "testSuffix = CHR 0x0A # ''const y = 2''"

definition testPrompt :: "string \<Rightarrow> GhostPrompt" where
  "testPrompt p = \<lparr>prefix = p, suffix = testSuffix, systemPrompt = ''system'', userPrompt = ''user''\<rparr>"

definition testUsage :: UsageInfo where
  "testUsage = \<lparr>cost = 1 / 1000, inputTokens = 10, outputTokens = 20,
                cacheWriteTokens = 0, cacheReadTokens = 0\<rparr>"

text \<open>
  One trigger of the provider that misses the history: the call, its prompt, and its
  timer firing. The call takes the next number \<open>i\<close>, its debounce call \<open>i + 1\<close>.
\<close>

definition trigger :: "nat \<Rightarrow> string \<Rightarrow> event list" where
  "trigger i p =
     [Provide True p testSuffix (0, length p), PromptResolves i (testPrompt p), TimerFires (Suc i)]"

text \<open>Suggestions that differ from one another, for filling the history.\<close>

definition numberedSuggestion :: "nat \<Rightarrow> FillInAtCursorSuggestion" where
  "numberedSuggestion n = \<lparr>prefix = replicate n (CHR ''a''), suffix = testSuffix, text = ''x''\<rparr>"




section \<open>Basic facts\<close>

lemma startsWith_iff: "startsWith s p \<longleftrightarrow> (\<exists>r. s = p @ r)"
  unfolding startsWith_def
  by (metis append_eq_conv_conj append_take_drop_id)

section \<open>The loops in closed form\<close>

lemma cancelObsolete_Cons:
  "cancelObsolete p s ((key, pending) # rest) st =
     (if isObsolete p s pending
      then cancelObsolete p s rest
             (st\<lparr>aborted := insert (abortController pending) (aborted st),
                 trace := trace st @ [AbortSignal (abortController pending)],
                 pendingRequests := AList.delete key (pendingRequests st)\<rparr>)
      else cancelObsolete p s rest st)"
  by simp

lemma cancelObsolete_frame:
  "suggestionsHistory (cancelObsolete p s es st) = suggestionsHistory st
   \<and> debounceTimer (cancelObsolete p s es st) = debounceTimer st
   \<and> timers (cancelObsolete p s es st) = timers st
   \<and> inflight (cancelObsolete p s es st) = inflight st
   \<and> waiters (cancelObsolete p s es st) = waiters st
   \<and> invocations (cancelObsolete p s es st) = invocations st
   \<and> resolved (cancelObsolete p s es st) = resolved st
   \<and> returned (cancelObsolete p s es st) = returned st
   \<and> nextId (cancelObsolete p s es st) = nextId st"
proof (induction es arbitrary: st)
  case Nil
  then show ?case by simp
next
  case (Cons a es)
  obtain key pending where a: "a = (key, pending)" by (cases a)
  show ?case unfolding a cancelObsolete_Cons by (simp add: Cons.IH)
qed

lemma cancelObsolete_pending:
  "pendingRequests (cancelObsolete p s es st) =
     filter (\<lambda>x. fst x \<notin> set (map fst (filter (\<lambda>y. isObsolete p s (snd y)) es)))
       (pendingRequests st)"
proof (induction es arbitrary: st)
  case Nil
  then show ?case by simp
next
  case (Cons a es)
  obtain key pending where a: "a = (key, pending)" by (cases a)
  show ?case unfolding a cancelObsolete_Cons
    by (auto simp: Cons.IH AList.delete_eq intro!: filter_cong)
qed

lemma cancelObsolete_aborted:
  "aborted (cancelObsolete p s es st) =
     aborted st \<union> set (map (abortController \<circ> snd) (filter (\<lambda>y. isObsolete p s (snd y)) es))"
proof (induction es arbitrary: st)
  case Nil
  then show ?case by simp
next
  case (Cons a es)
  obtain key pending where a: "a = (key, pending)" by (cases a)
  show ?case unfolding a cancelObsolete_Cons
    by (auto simp: Cons.IH)
qed

lemma cancelObsolete_trace:
  "trace (cancelObsolete p s es st) =
     trace st @ map (AbortSignal \<circ> abortController \<circ> snd) (filter (\<lambda>y. isObsolete p s (snd y)) es)"
proof (induction es arbitrary: st)
  case Nil
  then show ?case by simp
next
  case (Cons a es)
  obtain key pending where a: "a = (key, pending)" by (cases a)
  show ?case unfolding a cancelObsolete_Cons
    by (auto simp: Cons.IH)
qed

lemma abortAll_frame:
  "suggestionsHistory (abortAll es st) = suggestionsHistory st
   \<and> debounceTimer (abortAll es st) = debounceTimer st
   \<and> pendingRequests (abortAll es st) = pendingRequests st
   \<and> timers (abortAll es st) = timers st
   \<and> inflight (abortAll es st) = inflight st
   \<and> waiters (abortAll es st) = waiters st
   \<and> invocations (abortAll es st) = invocations st
   \<and> resolved (abortAll es st) = resolved st
   \<and> returned (abortAll es st) = returned st
   \<and> nextId (abortAll es st) = nextId st"
proof (induction es arbitrary: st)
  case Nil
  then show ?case by simp
next
  case (Cons a es)
  obtain key pending where a: "a = (key, pending)" by (cases a)
  show ?case unfolding a by (simp add: Cons.IH)
qed

lemma abortAll_aborted:
  "aborted (abortAll es st) = aborted st \<union> (abortController \<circ> snd) ` set es"
proof (induction es arbitrary: st)
  case Nil
  then show ?case by simp
next
  case (Cons a es)
  obtain key pending where a: "a = (key, pending)" by (cases a)
  show ?case unfolding a by (auto simp: Cons.IH)
qed

lemma abortAll_trace:
  "trace (abortAll es st) = trace st @ map (AbortSignal \<circ> abortController \<circ> snd) es"
proof (induction es arbitrary: st)
  case Nil
  then show ?case by simp
next
  case (Cons a es)
  obtain key pending where a: "a = (key, pending)" by (cases a)
  show ?case unfolding a by (simp add: Cons.IH)
qed


section \<open>The history stays bounded and free of duplicates\<close>

lemma isDuplicate_iff: "isDuplicate f h \<longleftrightarrow> f \<in> set h"
  by (induction h) (auto simp: isDuplicate_def)

lemma pushSuggestion_length:
  "length h \<le> MAX_SUGGESTIONS_HISTORY \<Longrightarrow> length (pushSuggestion f h) \<le> MAX_SUGGESTIONS_HISTORY"
  by (auto simp: pushSuggestion_def)

lemma pushSuggestion_distinct: "distinct h \<Longrightarrow> distinct (pushSuggestion f h)"
  by (cases h) (auto simp: pushSuggestion_def isDuplicate_iff)

lemma histOk_same: "suggestionsHistory st' = suggestionsHistory st \<Longrightarrow> histOk st \<Longrightarrow> histOk st'"
  by (simp add: histOk_def)

lemma histOk_updateSuggestions: "histOk st \<Longrightarrow> histOk (updateSuggestions f st)"
  by (simp add: histOk_def updateSuggestions_def pushSuggestion_length pushSuggestion_distinct)

lemma startNewRequest_history:
  "suggestionsHistory (startNewRequest prompt d st) = suggestionsHistory st"
  by (simp add: startNewRequest_def createRequest_def Let_def cancelObsolete_frame)

lemma histOk_settleRequest:
  "histOk st \<Longrightarrow> histOk (snd (settleRequest n prompt outcome st))"
  by (cases outcome)
     (auto simp: settleRequest_def cleanupPending_def Let_def updateSuggestions_def histOk_def
        pushSuggestion_length pushSuggestion_distinct)

lemma histOk_resumeWaiter: "histOk st \<Longrightarrow> histOk (resumeWaiter v w st)"
  by (cases v; cases w)
     (auto simp: finish_def updateSuggestions_def histOk_def startNewRequest_history
        pushSuggestion_length pushSuggestion_distinct)

lemma histOk_fold_resumeWaiter: "histOk st \<Longrightarrow> histOk (fold (resumeWaiter v) ws st)"
  by (induction ws arbitrary: st) (auto intro: histOk_resumeWaiter)

lemma histOk_llmSettles: "histOk st \<Longrightarrow> histOk (llmSettles n outcome st)"
proof (cases "map_of (inflight st) n")
  case None
  then show "histOk st \<Longrightarrow> ?thesis" by (simp add: llmSettles_def)
next
  case (Some prompt)
  assume h: "histOk st"
  let ?st0 = "st\<lparr>inflight := AList.delete n (inflight st)\<rparr>"
  obtain v st1 where s: "settleRequest n prompt outcome ?st0 = (v, st1)" by (cases "settleRequest n prompt outcome ?st0")
  from h have "histOk ?st0" by (simp add: histOk_def)
  from histOk_settleRequest[OF this, of n prompt outcome] s have "histOk st1" by simp
  then have "histOk (st1\<lparr>waiters := filter (\<lambda>(i, w). i \<noteq> n) (waiters st1)\<rparr>)" by (simp add: histOk_def)
  then have "histOk (fold (resumeWaiter v) (map snd (filter (\<lambda>(i, w). i = n) (waiters st1)))
                    (st1\<lparr>waiters := filter (\<lambda>(i, w). i \<noteq> n) (waiters st1)\<rparr>))"
    by (rule histOk_fold_resumeWaiter)
  then show ?thesis using Some s by (simp add: llmSettles_def returnResolved_def histOk_def)
qed

lemma histOk_step: "histOk st \<Longrightarrow> histOk (step ev st)"
proof (cases ev)
  case (Provide gate p s position)
  then show "histOk st \<Longrightarrow> ?thesis"
    by (auto simp: provide_def Let_def histOk_def split: option.splits)
next
  case (PromptResolves i prompt)
  then show "histOk st \<Longrightarrow> ?thesis"
    by (auto simp: promptResolves_def debouncedFetchAndCacheSuggestion_def clearTimeout_def Let_def
          histOk_def split: option.splits invocation.splits)
next
  case (PromptRejects i e)
  then show "histOk st \<Longrightarrow> ?thesis"
    by (auto simp: promptRejects_def histOk_def split: option.splits invocation.splits)
next
  case (TimerFires t)
  then show "histOk st \<Longrightarrow> ?thesis"
    by (auto simp: timerFires_def fetchAndCacheSuggestion_def startNewRequest_history histOk_def
          split: option.splits)
next
  case (LlmSettles n outcome)
  then show "histOk st \<Longrightarrow> ?thesis" by (simp add: histOk_llmSettles)
next
  case Dispose
  then show "histOk st \<Longrightarrow> ?thesis"
    by (auto simp: dispose_def clearTimeout_def Let_def histOk_def abortAll_frame split: option.splits)
qed

lemma histOk_run: "histOk st \<Longrightarrow> histOk (run es st)"
  unfolding run_def by (induction es arbitrary: st) (auto intro: histOk_step)

lemma histOk_init: "histOk init"
  by (simp add: histOk_def init_def)


section \<open>The map of pending requests\<close>

lemma set_update_cases:
  "x \<in> set (AList.update k v al) \<Longrightarrow> x = (k, v) \<or> x \<in> set al"
  by (induction al) (auto split: if_splits)

lemma regOk_same:
  "pendingRequests st' = pendingRequests st \<Longrightarrow> inflight st' = inflight st \<Longrightarrow>
   nextId st \<le> nextId st' \<Longrightarrow> regOk st \<Longrightarrow> regOk st'"
  by (fastforce simp: regOk_def)

lemma regOk_fresh: "regOk st \<Longrightarrow> map_of (inflight st) (nextId st) = None"
proof (rule ccontr)
  assume r: "regOk st" and "map_of (inflight st) (nextId st) \<noteq> None"
  then obtain prompt where "map_of (inflight st) (nextId st) = Some prompt" by auto
  then have "(nextId st, prompt) \<in> set (inflight st)" by (rule map_of_SomeD)
  with r show False by (auto simp: regOk_def)
qed

lemma regOk_cancelObsolete: "regOk st \<Longrightarrow> regOk (cancelObsolete p s es st)"
  by (auto simp: regOk_def cancelObsolete_frame cancelObsolete_pending distinct_map_filter)

lemma regOk_createRequest:
  assumes r: "regOk st"
  shows "regOk (createRequest prompt d st)"
proof -
  let ?n = "nextId st"
  let ?k = "getCacheKey (prefix prompt) (suffix prompt)"
  let ?e = "\<lparr>prefix = prefix prompt, suffix = suffix prompt, promise = ?n, abortController = ?n\<rparr>"
  let ?st' = "createRequest prompt d st"
  have pend: "pendingRequests ?st' = AList.update ?k ?e (pendingRequests st)"
    and infl: "inflight ?st' = inflight st @ [(?n, prompt)]"
    and nid: "nextId ?st' = Suc ?n"
    by (simp_all add: createRequest_def Let_def)
  have fresh: "map_of (inflight st) ?n = None" using r by (rule regOk_fresh)
  have d: "distinct (map fst (pendingRequests ?st'))"
    using r by (simp add: pend regOk_def distinct_update)
  have e: "\<forall>(k, e) \<in> set (pendingRequests ?st').
            k = getCacheKey (prefix e) (suffix e) \<and> abortController e = promise e
            \<and> (\<exists>prompt. map_of (inflight ?st') (promise e) = Some prompt
                  \<and> prefix prompt = prefix e \<and> suffix prompt = suffix e)"
  proof (clarify)
    fix k e assume "(k, e) \<in> set (pendingRequests ?st')"
    then have "(k, e) = (?k, ?e) \<or> (k, e) \<in> set (pendingRequests st)"
      unfolding pend by (auto dest: set_update_cases)
    then show "k = getCacheKey (prefix e) (suffix e) \<and> abortController e = promise e
            \<and> (\<exists>prompt. map_of (inflight ?st') (promise e) = Some prompt
                  \<and> prefix prompt = prefix e \<and> suffix prompt = suffix e)"
    proof
      assume "(k, e) = (?k, ?e)"
      then show ?thesis using fresh by (auto simp: infl map_add_def)
    next
      assume "(k, e) \<in> set (pendingRequests st)"
      with r obtain pr where "k = getCacheKey (prefix e) (suffix e)" "abortController e = promise e"
        "map_of (inflight st) (promise e) = Some pr" "prefix pr = prefix e" "suffix pr = suffix e"
        by (fastforce simp: regOk_def)
      then show ?thesis by (auto simp: infl map_add_def)
    qed
  qed
  have f: "\<forall>(n, prompt) \<in> set (inflight ?st'). n < nextId ?st'"
    using r by (auto simp: infl nid regOk_def less_Suc_eq)
  from d e f show ?thesis unfolding regOk_def by blast
qed

lemma regOk_startNewRequest: "regOk st \<Longrightarrow> regOk (startNewRequest prompt d st)"
  by (simp add: startNewRequest_def regOk_createRequest regOk_cancelObsolete)

lemma regOk_fetchAndCacheSuggestion: "regOk st \<Longrightarrow> regOk (fetchAndCacheSuggestion prompt d st)"
  by (auto simp: fetchAndCacheSuggestion_def regOk_startNewRequest split: option.splits
        intro: regOk_same)

lemma settleRequest_frame:
  "pendingRequests (snd (settleRequest n prompt outcome st)) =
     AList.delete (getCacheKey (prefix prompt) (suffix prompt)) (pendingRequests st)
   \<and> inflight (snd (settleRequest n prompt outcome st)) = inflight st
   \<and> nextId (snd (settleRequest n prompt outcome st)) = nextId st
   \<and> waiters (snd (settleRequest n prompt outcome st)) = waiters st
   \<and> debounceTimer (snd (settleRequest n prompt outcome st)) = debounceTimer st
   \<and> timers (snd (settleRequest n prompt outcome st)) = timers st
   \<and> invocations (snd (settleRequest n prompt outcome st)) = invocations st
   \<and> resolved (snd (settleRequest n prompt outcome st)) = resolved st
   \<and> returned (snd (settleRequest n prompt outcome st)) = returned st
   \<and> aborted (snd (settleRequest n prompt outcome st)) = aborted st"
  by (cases outcome) (auto simp: settleRequest_def cleanupPending_def updateSuggestions_def Let_def)

lemma regOk_settle:
  assumes r: "regOk st" and m: "map_of (inflight st) n = Some prompt"
  shows "regOk (snd (settleRequest n prompt outcome (st\<lparr>inflight := AList.delete n (inflight st)\<rparr>)))
         \<and> n \<notin> fst ` set (inflight (snd (settleRequest n prompt outcome (st\<lparr>inflight := AList.delete n (inflight st)\<rparr>))))"
proof -
  let ?st0 = "st\<lparr>inflight := AList.delete n (inflight st)\<rparr>"
  let ?st1 = "snd (settleRequest n prompt outcome ?st0)"
  let ?K = "getCacheKey (prefix prompt) (suffix prompt)"
  have pend: "pendingRequests ?st1 = AList.delete ?K (pendingRequests st)"
    and infl: "inflight ?st1 = AList.delete n (inflight st)"
    and nid: "nextId ?st1 = nextId st"
    using settleRequest_frame[of n prompt outcome ?st0] by simp_all
  have d: "distinct (map fst (pendingRequests ?st1))"
    using r by (simp add: pend regOk_def distinct_delete)
  have e: "\<forall>(k, e) \<in> set (pendingRequests ?st1).
            k = getCacheKey (prefix e) (suffix e) \<and> abortController e = promise e
            \<and> (\<exists>prompt. map_of (inflight ?st1) (promise e) = Some prompt
                  \<and> prefix prompt = prefix e \<and> suffix prompt = suffix e)"
  proof (clarify)
    fix k e assume "(k, e) \<in> set (pendingRequests ?st1)"
    then have mem: "(k, e) \<in> set (pendingRequests st)" and kK: "k \<noteq> ?K"
      unfolding pend by (auto simp: AList.delete_eq)
    with r obtain pr where p: "k = getCacheKey (prefix e) (suffix e)" "abortController e = promise e"
        "map_of (inflight st) (promise e) = Some pr" "prefix pr = prefix e" "suffix pr = suffix e"
      by (fastforce simp: regOk_def)
    have "promise e \<noteq> n"
    proof
      assume "promise e = n"
      with p(3) m have "pr = prompt" by simp
      with p kK show False by simp
    qed
    then have "map_of (inflight ?st1) (promise e) = Some pr"
      using p(3) by (simp add: infl delete_conv')
    with p show "k = getCacheKey (prefix e) (suffix e) \<and> abortController e = promise e
            \<and> (\<exists>prompt. map_of (inflight ?st1) (promise e) = Some prompt
                  \<and> prefix prompt = prefix e \<and> suffix prompt = suffix e)" by blast
  qed
  have f: "\<forall>(n, prompt) \<in> set (inflight ?st1). n < nextId ?st1"
    using r unfolding infl nid regOk_def by (auto simp: AList.delete_eq)
  have "n \<notin> fst ` set (inflight ?st1)" unfolding infl by (auto simp: AList.delete_eq)
  with d e f show ?thesis unfolding regOk_def by blast
qed

lemma finish_frame:
  "pendingRequests (finish d st) = pendingRequests st \<and> inflight (finish d st) = inflight st
   \<and> nextId (finish d st) = nextId st"
  by (simp add: finish_def)

lemma regOk_resumeWaiter: "regOk st \<Longrightarrow> regOk (resumeWaiter v w st)"
proof (cases v; cases w)
  fix e reusable prompt d
  assume r: "regOk st" and v: "v = Rejected e" and w: "w = Reuser reusable prompt d"
  have "regOk (st\<lparr>trace := trace st @ [ConsoleWarn e]\<rparr>)" using r by (rule regOk_same[rotated 3]) simp_all
  then show "regOk (resumeWaiter v w st)" using r v w
    by (auto simp: regOk_startNewRequest intro: regOk_same[OF _ _ _ r] simp: finish_def)
qed (auto simp: finish_def updateSuggestions_def intro: regOk_same)

lemma resumeWaiter_nextId: "nextId st \<le> nextId (resumeWaiter v w st)"
  by (cases v; cases w)
     (auto simp: finish_def updateSuggestions_def startNewRequest_def createRequest_def Let_def
        cancelObsolete_frame)

lemma map_of_append_fresh:
  "k \<noteq> k' \<Longrightarrow> k \<notin> fst ` set (xs @ [(k', v)]) \<longleftrightarrow> k \<notin> fst ` set xs"
  by auto

lemma resumeWaiter_inflight_notin:
  "n < nextId st \<Longrightarrow> n \<notin> fst ` set (inflight st) \<Longrightarrow> n \<notin> fst ` set (inflight (resumeWaiter v w st))"
  by (cases v; cases w)
     (auto simp: finish_def updateSuggestions_def startNewRequest_def createRequest_def Let_def
        cancelObsolete_frame)

lemma regOk_fold_resumeWaiter:
  "regOk st \<Longrightarrow> n < nextId st \<Longrightarrow> n \<notin> fst ` set (inflight st) \<Longrightarrow>
   regOk (fold (resumeWaiter v) ws st) \<and> n \<notin> fst ` set (inflight (fold (resumeWaiter v) ws st))"
proof (induction ws arbitrary: st)
  case Nil
  then show ?case by simp
next
  case (Cons w ws)
  have a: "regOk (resumeWaiter v w st)" using Cons.prems(1) by (rule regOk_resumeWaiter)
  have b: "n < nextId (resumeWaiter v w st)"
    using Cons.prems(2) resumeWaiter_nextId[of st v w] by simp
  have c: "n \<notin> fst ` set (inflight (resumeWaiter v w st))"
    using Cons.prems(2,3) by (rule resumeWaiter_inflight_notin)
  from Cons.IH[OF a b c] show ?case by simp
qed


lemma returnResolved_frame:
  "pendingRequests (returnResolved st) = pendingRequests st
   \<and> inflight (returnResolved st) = inflight st
   \<and> nextId (returnResolved st) = nextId st
   \<and> suggestionsHistory (returnResolved st) = suggestionsHistory st
   \<and> debounceTimer (returnResolved st) = debounceTimer st
   \<and> timers (returnResolved st) = timers st
   \<and> waiters (returnResolved st) = waiters st
   \<and> resolved (returnResolved st) = resolved st
   \<and> aborted (returnResolved st) = aborted st
   \<and> trace (returnResolved st) = trace st"
  by (simp add: returnResolved_def)

lemma regOk_llmSettles_Some:
  assumes r: "regOk st" and m: "map_of (inflight st) n = Some prompt"
  shows "regOk (llmSettles n outcome st) \<and> n \<notin> fst ` set (inflight (llmSettles n outcome st))"
proof -
  let ?st0 = "st\<lparr>inflight := AList.delete n (inflight st)\<rparr>"
  obtain v st1 where s: "settleRequest n prompt outcome ?st0 = (v, st1)"
    by (cases "settleRequest n prompt outcome ?st0")
  let ?st2 = "st1\<lparr>waiters := filter (\<lambda>(i, w). i \<noteq> n) (waiters st1)\<rparr>"
  let ?ws = "map snd (filter (\<lambda>(i, w). i = n) (waiters st1))"
  from regOk_settle[OF r m, of outcome] s
  have r1: "regOk st1" and n1: "n \<notin> fst ` set (inflight st1)" by simp_all
  from m have "(n, prompt) \<in> set (inflight st)" by (rule map_of_SomeD)
  with r have "n < nextId st" by (auto simp: regOk_def)
  moreover have "nextId st1 = nextId st" using settleRequest_frame[of n prompt outcome ?st0] s by simp
  ultimately have lt: "n < nextId ?st2" by simp
  have r2: "regOk ?st2" using r1 by (rule regOk_same[rotated 3]) simp_all
  have n2: "n \<notin> fst ` set (inflight ?st2)" using n1 by simp
  from regOk_fold_resumeWaiter[OF r2 lt n2, of v ?ws]
  have "regOk (fold (resumeWaiter v) ?ws ?st2)"
       "n \<notin> fst ` set (inflight (fold (resumeWaiter v) ?ws ?st2))" by simp_all
  then have "regOk (returnResolved (fold (resumeWaiter v) ?ws ?st2))
     \<and> n \<notin> fst ` set (inflight (returnResolved (fold (resumeWaiter v) ?ws ?st2)))"
    by (auto simp: returnResolved_frame intro: regOk_same[rotated 3])
  then show ?thesis using m s by (simp add: llmSettles_def)
qed

lemma regOk_llmSettles: "regOk st \<Longrightarrow> regOk (llmSettles n outcome st)"
  by (cases "map_of (inflight st) n") (auto simp: llmSettles_def dest: regOk_llmSettles_Some)

lemma regOk_not_inflight:
  "regOk st \<Longrightarrow> n \<notin> fst ` set (inflight st) \<Longrightarrow> (k, e) \<in> set (pendingRequests st) \<Longrightarrow> promise e \<noteq> n"
proof
  assume r: "regOk st" and n: "n \<notin> fst ` set (inflight st)" and m: "(k, e) \<in> set (pendingRequests st)"
    and eq: "promise e = n"
  from r m obtain pr where "map_of (inflight st) (promise e) = Some pr" by (fastforce simp: regOk_def)
  then have "(promise e, pr) \<in> set (inflight st)" by (rule map_of_SomeD)
  with n eq show False by force
qed

lemma llmSettles_removes:
  assumes r: "regOk st" and m: "(k, e) \<in> set (pendingRequests (llmSettles n outcome st))"
  shows "promise e \<noteq> n"
proof (cases "map_of (inflight st) n")
  case None
  then have "n \<notin> fst ` set (inflight st)" by (simp add: map_of_eq_None_iff)
  moreover from None m have "(k, e) \<in> set (pendingRequests st)" by (simp add: llmSettles_def)
  ultimately show ?thesis using r by (rule regOk_not_inflight[rotated 1])
next
  case (Some prompt)
  from regOk_llmSettles_Some[OF r Some, of outcome] m show ?thesis
    by (auto dest: regOk_not_inflight)
qed

lemma regOk_step: "regOk st \<Longrightarrow> regOk (step ev st)"
proof (cases ev)
  case (Provide gate p s position)
  then show "regOk st \<Longrightarrow> ?thesis"
    by (auto simp: provide_def Let_def split: option.splits intro: regOk_same[rotated 3])
next
  case (PromptResolves i prompt)
  then show "regOk st \<Longrightarrow> ?thesis"
    by (auto simp: promptResolves_def debouncedFetchAndCacheSuggestion_def clearTimeout_def Let_def
          split: option.splits invocation.splits intro: regOk_same[rotated 3])
next
  case (PromptRejects i e)
  then show "regOk st \<Longrightarrow> ?thesis"
    by (auto simp: promptRejects_def split: option.splits invocation.splits intro: regOk_same[rotated 3])
next
  case (TimerFires t)
  assume r: "regOk st"
  show ?thesis
  proof (cases "map_of (timers st) t")
    case None
    with r TimerFires show ?thesis by (simp add: timerFires_def)
  next
    case (Some prompt)
    have "regOk (st\<lparr>timers := AList.delete t (timers st), debounceTimer := None\<rparr>)"
      using r by (rule regOk_same[rotated 3]) simp_all
    then show ?thesis using Some TimerFires by (simp add: timerFires_def regOk_fetchAndCacheSuggestion)
  qed
next
  case (LlmSettles n outcome)
  then show "regOk st \<Longrightarrow> ?thesis" by (simp add: regOk_llmSettles)
next
  case Dispose
  then show "regOk st \<Longrightarrow> ?thesis"
    by (auto simp: dispose_def clearTimeout_def Let_def regOk_def abortAll_frame split: option.splits)
qed

lemma regOk_run: "regOk st \<Longrightarrow> regOk (run es st)"
  unfolding run_def by (induction es arbitrary: st) (auto intro: regOk_step)

lemma regOk_init: "regOk init"
  by (simp add: regOk_def init_def)

lemma startNewRequest_frame:
  "debounceTimer (startNewRequest prompt d st) = debounceTimer st
   \<and> timers (startNewRequest prompt d st) = timers st
   \<and> invocations (startNewRequest prompt d st) = invocations st
   \<and> returned (startNewRequest prompt d st) = returned st
   \<and> resolved (startNewRequest prompt d st) = resolved st
   \<and> suggestionsHistory (startNewRequest prompt d st) = suggestionsHistory st
   \<and> nextId (startNewRequest prompt d st) = Suc (nextId st)
   \<and> waiters (startNewRequest prompt d st) = waiters st @ [(nextId st, Owner d)]
   \<and> inflight (startNewRequest prompt d st) = inflight st @ [(nextId st, prompt)]"
  by (simp add: startNewRequest_def createRequest_def Let_def cancelObsolete_frame)

lemma resumeWaiter_frame:
  "debounceTimer (resumeWaiter v w st) = debounceTimer st
   \<and> timers (resumeWaiter v w st) = timers st
   \<and> invocations (resumeWaiter v w st) = invocations st
   \<and> returned (resumeWaiter v w st) = returned st
   \<and> nextId st \<le> nextId (resumeWaiter v w st)
   \<and> set (resolved (resumeWaiter v w st)) \<subseteq> insert (waiterDebounce w) (set (resolved st))
   \<and> (\<forall>x \<in> set (waiters (resumeWaiter v w st)).
         x \<in> set (waiters st) \<or> waiterDebounce (snd x) = waiterDebounce w)"
  by (cases v; cases w)
     (auto simp: finish_def updateSuggestions_def startNewRequest_frame)

lemma fold_resumeWaiter_frame:
  "debounceTimer (fold (resumeWaiter v) ws st) = debounceTimer st
   \<and> timers (fold (resumeWaiter v) ws st) = timers st
   \<and> invocations (fold (resumeWaiter v) ws st) = invocations st
   \<and> returned (fold (resumeWaiter v) ws st) = returned st
   \<and> nextId st \<le> nextId (fold (resumeWaiter v) ws st)
   \<and> set (resolved (fold (resumeWaiter v) ws st)) \<subseteq> waiterDebounce ` set ws \<union> set (resolved st)
   \<and> (\<forall>x \<in> set (waiters (fold (resumeWaiter v) ws st)).
         x \<in> set (waiters st) \<or> waiterDebounce (snd x) \<in> waiterDebounce ` set ws)"
proof (induction ws arbitrary: st)
  case Nil
  then show ?case by simp
next
  case (Cons w ws)
  note f = resumeWaiter_frame[of v w st]
  note ih = Cons.IH[of "resumeWaiter v w st"]
  have 1: "debounceTimer (fold (resumeWaiter v) (w # ws) st) = debounceTimer st" using f ih by simp
  have 2: "timers (fold (resumeWaiter v) (w # ws) st) = timers st" using f ih by simp
  have 3: "invocations (fold (resumeWaiter v) (w # ws) st) = invocations st" using f ih by simp
  have 4: "returned (fold (resumeWaiter v) (w # ws) st) = returned st" using f ih by simp
  have 5: "nextId st \<le> nextId (fold (resumeWaiter v) (w # ws) st)"
    using f ih by simp
  have 6: "set (resolved (fold (resumeWaiter v) (w # ws) st)) \<subseteq> waiterDebounce ` set (w # ws) \<union> set (resolved st)"
    using f ih by auto
  have 7: "\<forall>x \<in> set (waiters (fold (resumeWaiter v) (w # ws) st)).
         x \<in> set (waiters st) \<or> waiterDebounce (snd x) \<in> waiterDebounce ` set (w # ws)"
  proof
    fix x assume "x \<in> set (waiters (fold (resumeWaiter v) (w # ws) st))"
    then have "x \<in> set (waiters (resumeWaiter v w st)) \<or> waiterDebounce (snd x) \<in> waiterDebounce ` set ws"
      using ih by simp
    then show "x \<in> set (waiters st) \<or> waiterDebounce (snd x) \<in> waiterDebounce ` set (w # ws)"
      using f by auto
  qed
  from 1 2 3 4 5 6 7 show ?case by blast
qed


lemma timOk_timers_empty: "timOk st \<Longrightarrow> debounceTimer st = None \<Longrightarrow> timers st = []"
  by (cases "timers st") (auto simp: timOk_def)

lemma timOk_delete_timers: "timOk st \<Longrightarrow> debounceTimer st = Some t \<Longrightarrow> AList.delete t (timers st) = []"
  by (auto simp: timOk_def AList.delete_eq filter_empty_conv)

lemma timOk_debounce:
  assumes t: "timOk st"
  shows "timOk (snd (debouncedFetchAndCacheSuggestion prompt st))"
proof (cases "debounceTimer st")
  case None
  with timOk_timers_empty[OF t] have "timers st = []" by simp
  with t None show ?thesis
    by (auto simp: debouncedFetchAndCacheSuggestion_def Let_def timOk_def waiterOk_def less_Suc_eq)
next
  case (Some u)
  with timOk_delete_timers[OF t] have "AList.delete u (timers st) = []" by simp
  with t Some show ?thesis
    by (auto simp: debouncedFetchAndCacheSuggestion_def clearTimeout_def Let_def timOk_def
          waiterOk_def less_Suc_eq)
qed

lemma timOk_resumeWaiter:
  "timOk st \<Longrightarrow> waiterOk st w \<Longrightarrow> timOk (resumeWaiter v w st)"
  by (cases v; cases w)
     (auto simp: timOk_def waiterOk_def finish_def updateSuggestions_def startNewRequest_frame
        less_Suc_eq)

lemma waiterOk_resumeWaiter: "waiterOk st w' \<Longrightarrow> waiterOk (resumeWaiter v w st) w'"
  using resumeWaiter_frame[of v w st] by (auto simp: waiterOk_def)

lemma timOk_fold_resumeWaiter:
  "timOk st \<Longrightarrow> \<forall>w \<in> set ws. waiterOk st w \<Longrightarrow> timOk (fold (resumeWaiter v) ws st)"
proof (induction ws arbitrary: st)
  case Nil
  then show ?case by simp
next
  case (Cons w ws)
  have a: "timOk (resumeWaiter v w st)" using Cons.prems by (simp add: timOk_resumeWaiter)
  have b: "\<forall>w' \<in> set ws. waiterOk (resumeWaiter v w st) w'"
    using Cons.prems by (simp add: waiterOk_resumeWaiter)
  from Cons.IH[OF a b] show ?case by simp
qed

lemma timOk_llmSettles: "timOk st \<Longrightarrow> timOk (llmSettles n outcome st)"
proof (cases "map_of (inflight st) n")
  case None
  then show "timOk st \<Longrightarrow> ?thesis" by (simp add: llmSettles_def)
next
  case (Some prompt)
  assume t: "timOk st"
  let ?st0 = "st\<lparr>inflight := AList.delete n (inflight st)\<rparr>"
  obtain v st1 where s: "settleRequest n prompt outcome ?st0 = (v, st1)"
    by (cases "settleRequest n prompt outcome ?st0")
  let ?st2 = "st1\<lparr>waiters := filter (\<lambda>(i, w). i \<noteq> n) (waiters st1)\<rparr>"
  let ?ws = "map snd (filter (\<lambda>(i, w). i = n) (waiters st1))"
  note fr = settleRequest_frame[of n prompt outcome ?st0]
  have t1: "timOk st1" using t fr s by (auto simp: timOk_def waiterOk_def)
  then have t2: "timOk ?st2" by (auto simp: timOk_def waiterOk_def)
  have w: "\<forall>w \<in> set ?ws. waiterOk ?st2 w" using t1 by (auto simp: timOk_def waiterOk_def)
  have "timOk (fold (resumeWaiter v) ?ws ?st2)" using t2 w by (rule timOk_fold_resumeWaiter)
  then have "timOk (returnResolved (fold (resumeWaiter v) ?ws ?st2))"
    by (simp add: timOk_def waiterOk_def returnResolved_frame)
  then show ?thesis using Some s by (simp add: llmSettles_def)
qed

lemma timOk_step: "timOk st \<Longrightarrow> timOk (step ev st)"
proof (cases ev)
  case (Provide gate p s position)
  then show "timOk st \<Longrightarrow> ?thesis"
    by (auto simp: provide_def Let_def timOk_def waiterOk_def less_Suc_eq split: option.splits)
next
  case (PromptResolves i prompt)
  assume t: "timOk st"
  obtain d st1 where s: "debouncedFetchAndCacheSuggestion prompt st = (d, st1)"
    by (cases "debouncedFetchAndCacheSuggestion prompt st")
  with timOk_debounce[OF t, of prompt] have "timOk st1" by simp
  then have "\<And>x. timOk (st1\<lparr>invocations := x\<rparr>)" by (simp add: timOk_def waiterOk_def)
  with t s PromptResolves show ?thesis
    by (auto simp: promptResolves_def split: option.splits invocation.splits)
next
  case (PromptRejects i e)
  then show "timOk st \<Longrightarrow> ?thesis"
    by (auto simp: promptRejects_def timOk_def waiterOk_def split: option.splits invocation.splits)
next
  case (TimerFires t)
  assume ok: "timOk st"
  show ?thesis
  proof (cases "map_of (timers st) t")
    case None
    with ok TimerFires show ?thesis by (simp add: timerFires_def)
  next
    case (Some prompt)
    then have "(t, prompt) \<in> set (timers st)" by (rule map_of_SomeD)
    with ok have dt: "debounceTimer st = Some t" and lt: "t < nextId st" by (auto simp: timOk_def)
    with timOk_delete_timers[OF ok] have e: "AList.delete t (timers st) = []" by simp
    show ?thesis using ok Some TimerFires e lt
      by (auto simp: timerFires_def fetchAndCacheSuggestion_def startNewRequest_frame timOk_def
            waiterOk_def less_Suc_eq split: option.splits)
  qed
next
  case (LlmSettles n outcome)
  then show "timOk st \<Longrightarrow> ?thesis" by (simp add: timOk_llmSettles)
next
  case Dispose
  assume ok: "timOk st"
  show ?thesis
  proof (cases "debounceTimer st")
    case None
    with ok Dispose show ?thesis
      by (auto simp: dispose_def Let_def timOk_def waiterOk_def abortAll_frame)
  next
    case (Some t)
    with timOk_delete_timers[OF ok] have "AList.delete t (timers st) = []" by simp
    with ok Dispose Some show ?thesis
      by (auto simp: dispose_def clearTimeout_def Let_def timOk_def waiterOk_def abortAll_frame)
  qed
qed

lemma timOk_run: "timOk st \<Longrightarrow> timOk (run es st)"
  unfolding run_def by (induction es arbitrary: st) (auto intro: timOk_step)

lemma timOk_init: "timOk init"
  by (simp add: timOk_def init_def)


lemma invOk_same:
  "invocations st' = invocations st \<Longrightarrow> returned st' = returned st \<Longrightarrow>
   nextId st \<le> nextId st' \<Longrightarrow> invOk st \<Longrightarrow> invOk st'"
  by (fastforce simp: invOk_def)

lemma invOk_returnResolved: "invOk st \<Longrightarrow> invOk (returnResolved st)"
  unfolding invOk_def returnResolved_def
  by (auto simp: distinct_map_filter dest: eq_key_imp_eq_value)

lemma invOk_llmSettles: "invOk st \<Longrightarrow> invOk (llmSettles n outcome st)"
proof (cases "map_of (inflight st) n")
  case None
  then show "invOk st \<Longrightarrow> ?thesis" by (simp add: llmSettles_def)
next
  case (Some prompt)
  assume t: "invOk st"
  let ?st0 = "st\<lparr>inflight := AList.delete n (inflight st)\<rparr>"
  obtain v st1 where s: "settleRequest n prompt outcome ?st0 = (v, st1)"
    by (cases "settleRequest n prompt outcome ?st0")
  let ?st2 = "st1\<lparr>waiters := filter (\<lambda>(i, w). i \<noteq> n) (waiters st1)\<rparr>"
  let ?ws = "map snd (filter (\<lambda>(i, w). i = n) (waiters st1))"
  note fr = settleRequest_frame[of n prompt outcome ?st0]
  note ff = fold_resumeWaiter_frame[of v ?ws ?st2]
  have "invOk (fold (resumeWaiter v) ?ws ?st2)"
    using t fr s ff by (intro invOk_same[OF _ _ _ t]) simp_all
  then have "invOk (returnResolved (fold (resumeWaiter v) ?ws ?st2))" by (rule invOk_returnResolved)
  then show ?thesis using Some s by (simp add: llmSettles_def)
qed

lemma invOk_fresh: "invOk st \<Longrightarrow> nextId st \<notin> fst ` set (invocations st)"
  unfolding invOk_def by force

lemma invOk_I:
  "distinct (map fst (invocations st)) \<Longrightarrow>
   (\<And>i v. (i, v) \<in> set (invocations st) \<Longrightarrow> i < nextId st) \<Longrightarrow>
   (\<And>i r. (i, r) \<in> set (returned st) \<Longrightarrow> i < nextId st \<and> i \<notin> fst ` set (invocations st)) \<Longrightarrow>
   invOk st"
  unfolding invOk_def by blast

lemma invOk_D:
  assumes "invOk st"
  shows "distinct (map fst (invocations st))"
    and "\<And>i v. (i, v) \<in> set (invocations st) \<Longrightarrow> i < nextId st"
    and "\<And>i r. (i, r) \<in> set (returned st) \<Longrightarrow> i < nextId st"
    and "\<And>i r. (i, r) \<in> set (returned st) \<Longrightarrow> i \<notin> fst ` set (invocations st)"
  using assms unfolding invOk_def by blast+

lemma invOk_add_returned:
  assumes ok: "invOk st"
  shows "invOk (st\<lparr>nextId := Suc (nextId st), returned := returned st @ [(nextId st, r)]\<rparr>)"
proof (rule invOk_I)
  show "distinct (map fst (invocations (st\<lparr>nextId := Suc (nextId st), returned := returned st @ [(nextId st, r)]\<rparr>)))"
    using invOk_D(1)[OF ok] by simp
next
  fix i v assume "(i, v) \<in> set (invocations (st\<lparr>nextId := Suc (nextId st), returned := returned st @ [(nextId st, r)]\<rparr>))"
  then have "i < nextId st" using invOk_D(2)[OF ok] by simp
  then show "i < nextId (st\<lparr>nextId := Suc (nextId st), returned := returned st @ [(nextId st, r)]\<rparr>)" by simp
next
  fix i r' assume "(i, r') \<in> set (returned (st\<lparr>nextId := Suc (nextId st), returned := returned st @ [(nextId st, r)]\<rparr>))"
  then have "(i, r') \<in> set (returned st) \<or> i = nextId st" by auto
  then show "i < nextId (st\<lparr>nextId := Suc (nextId st), returned := returned st @ [(nextId st, r)]\<rparr>)
     \<and> i \<notin> fst ` set (invocations (st\<lparr>nextId := Suc (nextId st), returned := returned st @ [(nextId st, r)]\<rparr>))"
  proof
    assume a: "(i, r') \<in> set (returned st)"
    from invOk_D(3)[OF ok a] invOk_D(4)[OF ok a] show ?thesis by simp
  next
    assume "i = nextId st"
    with invOk_fresh[OF ok] show ?thesis by simp
  qed
qed

lemma invOk_add_invocation:
  assumes ok: "invOk st"
  shows "invOk (st\<lparr>nextId := Suc (nextId st), invocations := invocations st @ [(nextId st, v)]\<rparr>)"
proof (rule invOk_I)
  show "distinct (map fst (invocations (st\<lparr>nextId := Suc (nextId st), invocations := invocations st @ [(nextId st, v)]\<rparr>)))"
    using invOk_D(1)[OF ok] invOk_fresh[OF ok] by simp
next
  fix i v' assume "(i, v') \<in> set (invocations (st\<lparr>nextId := Suc (nextId st), invocations := invocations st @ [(nextId st, v)]\<rparr>))"
  then have "(i, v') \<in> set (invocations st) \<or> i = nextId st" by auto
  then have "i < Suc (nextId st)" using invOk_D(2)[OF ok] by (auto simp: less_Suc_eq)
  then show "i < nextId (st\<lparr>nextId := Suc (nextId st), invocations := invocations st @ [(nextId st, v)]\<rparr>)" by simp
next
  fix i r assume "(i, r) \<in> set (returned (st\<lparr>nextId := Suc (nextId st), invocations := invocations st @ [(nextId st, v)]\<rparr>))"
  then have a: "(i, r) \<in> set (returned st)" by simp
  from invOk_D(3)[OF ok a] invOk_D(4)[OF ok a]
  show "i < nextId (st\<lparr>nextId := Suc (nextId st), invocations := invocations st @ [(nextId st, v)]\<rparr>)
     \<and> i \<notin> fst ` set (invocations (st\<lparr>nextId := Suc (nextId st), invocations := invocations st @ [(nextId st, v)]\<rparr>))"
    by auto
qed

lemma invOk_provide:
  assumes ok: "invOk st"
  shows "invOk (provide gate p s position st)"
proof (cases gate)
  case False
  then have "provide gate p s position st =
      st\<lparr>nextId := Suc (nextId st), returned := returned st @ [(nextId st, Inr [])]\<rparr>"
    by (simp add: provide_def Let_def)
  then show ?thesis using invOk_add_returned[OF ok] by simp
next
  case True
  show ?thesis
  proof (cases "findMatchingSuggestion p s (suggestionsHistory st)")
    case None
    with True have "provide gate p s position st =
        st\<lparr>nextId := Suc (nextId st), invocations := invocations st @ [(nextId st, AwaitPrompt p s position)]\<rparr>"
      by (simp add: provide_def Let_def)
    then show ?thesis using invOk_add_invocation[OF ok] by simp
  next
    case (Some t)
    with True have "provide gate p s position st =
        st\<lparr>nextId := Suc (nextId st),
           returned := returned st @ [(nextId st, Inr (stringToInlineCompletions t position))]\<rparr>"
      by (simp add: provide_def Let_def)
    then show ?thesis using invOk_add_returned[OF ok] by simp
  qed
qed

lemma set_update_present:
  "k \<in> fst ` set al \<Longrightarrow> fst ` set (AList.update k v al) = fst ` set al"
  by (metis update_keys set_map)

lemma invOk_update:
  assumes ok: "invOk st" and m: "map_of (invocations st) i = Some v" and le: "nextId st \<le> n"
  shows "invOk (st\<lparr>invocations := AList.update i v' (invocations st), nextId := n\<rparr>)"
proof (rule invOk_I)
  let ?st' = "st\<lparr>invocations := AList.update i v' (invocations st), nextId := n\<rparr>"
  from m have mem: "i \<in> fst ` set (invocations st)" by (force dest: map_of_SomeD)
  then have ks: "fst ` set (invocations ?st') = fst ` set (invocations st)"
    by (simp add: set_update_present)
  show "distinct (map fst (invocations ?st'))"
    using invOk_D(1)[OF ok] by (simp add: distinct_update)
  {
    fix j w assume "(j, w) \<in> set (invocations ?st')"
    then have "j \<in> fst ` set (invocations ?st')" by force
    then have "j \<in> fst ` set (invocations st)" using ks by simp
    then obtain w' where "(j, w') \<in> set (invocations st)" by auto
    from invOk_D(2)[OF ok this] le show "j < nextId ?st'" by simp
  }
  {
    fix j r assume "(j, r) \<in> set (returned ?st')"
    then have a: "(j, r) \<in> set (returned st)" by simp
    from invOk_D(3)[OF ok a] invOk_D(4)[OF ok a] le ks
    show "j < nextId ?st' \<and> j \<notin> fst ` set (invocations ?st')" by simp
  }
qed

lemma debounce_frame:
  "invocations (snd (debouncedFetchAndCacheSuggestion prompt st)) = invocations st
   \<and> returned (snd (debouncedFetchAndCacheSuggestion prompt st)) = returned st
   \<and> nextId (snd (debouncedFetchAndCacheSuggestion prompt st)) = Suc (nextId st)
   \<and> fst (debouncedFetchAndCacheSuggestion prompt st) = nextId st
   \<and> pendingRequests (snd (debouncedFetchAndCacheSuggestion prompt st)) = pendingRequests st
   \<and> inflight (snd (debouncedFetchAndCacheSuggestion prompt st)) = inflight st
   \<and> waiters (snd (debouncedFetchAndCacheSuggestion prompt st)) = waiters st
   \<and> resolved (snd (debouncedFetchAndCacheSuggestion prompt st)) = resolved st
   \<and> suggestionsHistory (snd (debouncedFetchAndCacheSuggestion prompt st)) = suggestionsHistory st
   \<and> debounceTimer (snd (debouncedFetchAndCacheSuggestion prompt st)) = Some (nextId st)"
  by (cases "debounceTimer st")
     (simp_all add: debouncedFetchAndCacheSuggestion_def clearTimeout_def Let_def)

lemma invOk_promptResolves:
  assumes ok: "invOk st"
  shows "invOk (promptResolves i prompt st)"
proof (cases "map_of (invocations st) i")
  case None
  then show ?thesis using ok by (simp add: promptResolves_def)
next
  case (Some inv)
  show ?thesis
  proof (cases inv)
    case (AwaitPrompt p s position)
    obtain d st1 where s: "debouncedFetchAndCacheSuggestion prompt st = (d, st1)"
      by (cases "debouncedFetchAndCacheSuggestion prompt st")
    note fr = debounce_frame[of prompt st]
    have ok1: "invOk st1" using fr s by (intro invOk_same[OF _ _ _ ok]) simp_all
    have m1: "map_of (invocations st1) i = Some inv" using Some fr s by simp
    have "invOk (st1\<lparr>invocations := AList.update i (AwaitDebounce d p s position) (invocations st1),
                      nextId := nextId st1\<rparr>)"
      using ok1 m1 by (rule invOk_update) simp
    then show ?thesis using Some AwaitPrompt s by (simp add: promptResolves_def)
  next
    case (AwaitDebounce d p s position)
    then show ?thesis using Some ok by (simp add: promptResolves_def)
  qed
qed

lemma invOk_promptRejects:
  assumes ok: "invOk st"
  shows "invOk (promptRejects i e st)"
proof (cases "map_of (invocations st) i")
  case None
  then show ?thesis using ok by (simp add: promptRejects_def)
next
  case (Some inv)
  show ?thesis
  proof (cases inv)
    case (AwaitDebounce d p s position)
    then show ?thesis using Some ok by (simp add: promptRejects_def)
  next
    case (AwaitPrompt p s position)
    let ?st' = "st\<lparr>invocations := AList.delete i (invocations st), returned := returned st @ [(i, Inl e)]\<rparr>"
    from Some have mem: "(i, inv) \<in> set (invocations st)" by (rule map_of_SomeD)
    have "invOk ?st'"
    proof (rule invOk_I)
      show "distinct (map fst (invocations ?st'))" using invOk_D(1)[OF ok] by (simp add: distinct_delete)
    next
      fix j w assume "(j, w) \<in> set (invocations ?st')"
      then have "(j, w) \<in> set (invocations st)" by (auto simp: AList.delete_eq)
      from invOk_D(2)[OF ok this] show "j < nextId ?st'" by simp
    next
      fix j r assume "(j, r) \<in> set (returned ?st')"
      then have "(j, r) \<in> set (returned st) \<or> j = i" by auto
      then show "j < nextId ?st' \<and> j \<notin> fst ` set (invocations ?st')"
      proof
        assume a: "(j, r) \<in> set (returned st)"
        from invOk_D(3)[OF ok a] invOk_D(4)[OF ok a] show ?thesis
          by (auto simp: AList.delete_eq)
      next
        assume "j = i"
        with invOk_D(2)[OF ok mem] show ?thesis by (auto simp: AList.delete_eq)
      qed
    qed
    then show ?thesis using Some AwaitPrompt by (simp add: promptRejects_def)
  qed
qed

lemma invOk_step: "invOk st \<Longrightarrow> invOk (step ev st)"
proof (cases ev)
  case (Provide gate p s position)
  then show "invOk st \<Longrightarrow> ?thesis" by (simp add: invOk_provide)
next
  case (PromptResolves i prompt)
  then show "invOk st \<Longrightarrow> ?thesis" by (simp add: invOk_promptResolves)
next
  case (PromptRejects i e)
  then show "invOk st \<Longrightarrow> ?thesis" by (simp add: invOk_promptRejects)
next
  case (TimerFires t)
  then show "invOk st \<Longrightarrow> ?thesis"
    by (auto simp: timerFires_def fetchAndCacheSuggestion_def startNewRequest_frame
          split: option.splits intro: invOk_same[rotated 3])
next
  case (LlmSettles n outcome)
  then show "invOk st \<Longrightarrow> ?thesis" by (simp add: invOk_llmSettles)
next
  case Dispose
  then show "invOk st \<Longrightarrow> ?thesis"
    by (auto simp: dispose_def clearTimeout_def Let_def abortAll_frame split: option.splits
          intro: invOk_same[rotated 3])
qed

lemma invOk_run: "invOk st \<Longrightarrow> invOk (run es st)"
  unfolding run_def by (induction es arbitrary: st) (auto intro: invOk_step)

lemma invOk_init: "invOk init"
  by (simp add: invOk_def init_def)

lemma superseded_D:
  assumes "superseded d i p s position st"
  shows "d < nextId st" "i < nextId st" "d \<notin> fst ` set (timers st)" "debounceTimer st \<noteq> Some d"
    "\<forall>x \<in> set (waiters st). waiterDebounce (snd x) \<noteq> d" "d \<notin> set (resolved st)"
    "i \<notin> fst ` set (returned st)"
  using assms unfolding superseded_def by blast+

lemma superseded_map_of:
  assumes a: "superseded d i p s position st"
  shows "map_of (invocations st) i = Some (AwaitDebounce d p s position)"
proof -
  from a have mem: "(i, AwaitDebounce d p s position) \<in> set (invocations st)"
    and u: "\<forall>x \<in> set (invocations st). fst x = i \<longrightarrow> snd x = AwaitDebounce d p s position"
    unfolding superseded_def by blast+
  from mem have "i \<in> fst ` set (invocations st)" by (rule image_eqI[rotated]) simp
  then have "map_of (invocations st) i \<noteq> None" by (simp only: map_of_eq_None_iff not_not)
  then obtain inv where m: "map_of (invocations st) i = Some inv" by blast
  then have "(i, inv) \<in> set (invocations st)" by (rule map_of_SomeD)
  from bspec[OF u this] have "inv = AwaitDebounce d p s position" by simp
  then show ?thesis using m by simp
qed

lemma filter_update_other:
  "k \<noteq> j \<Longrightarrow> filter (\<lambda>x. fst x = j) (AList.update k v al) = filter (\<lambda>x. fst x = j) al"
  by (induction al) auto

lemma filter_delete_other:
  "k \<noteq> j \<Longrightarrow> filter (\<lambda>x. fst x = j) (AList.delete k al) = filter (\<lambda>x. fst x = j) al"
  by (induction al) auto

lemma superseded_invocations:
  assumes a: "superseded d i p s position st"
    and nid: "nextId st \<le> nextId st'"
    and tim: "d \<notin> fst ` set (timers st')" and dt: "debounceTimer st' \<noteq> Some d"
    and w: "\<forall>x \<in> set (waiters st'). waiterDebounce (snd x) \<noteq> d"
    and r: "d \<notin> set (resolved st')"
    and inv: "filter (\<lambda>x. fst x = i) (invocations st') = filter (\<lambda>x. fst x = i) (invocations st)"
    and ret: "i \<notin> fst ` set (returned st')"
  shows "superseded d i p s position st'"
proof -
  have eq: "{x \<in> set (invocations st'). fst x = i} = {x \<in> set (invocations st). fst x = i}"
    using arg_cong[OF inv, of set] by (simp only: set_filter)
  from a have "(i, AwaitDebounce d p s position) \<in> {x \<in> set (invocations st). fst x = i}"
    unfolding superseded_def by simp
  then have 1: "(i, AwaitDebounce d p s position) \<in> set (invocations st')" using eq by blast
  have 2: "\<forall>x \<in> set (invocations st'). fst x = i \<longrightarrow> snd x = AwaitDebounce d p s position"
  proof (intro ballI impI)
    fix x assume "x \<in> set (invocations st')" "fst x = i"
    then have "x \<in> {x \<in> set (invocations st). fst x = i}" using eq by blast
    with a show "snd x = AwaitDebounce d p s position" unfolding superseded_def by blast
  qed
  from a nid have 3: "d < nextId st'" "i < nextId st'" unfolding superseded_def by auto
  from 1 2 3 tim dt w r ret show ?thesis unfolding superseded_def by blast
qed

lemma notin_keys_append: "i \<noteq> n \<Longrightarrow> i \<notin> fst ` set xs \<Longrightarrow> i \<notin> fst ` set (xs @ [(n, v)])"
  by auto

lemma superseded_add_returned:
  assumes a: "superseded d i p s position st"
  shows "superseded d i p s position
           (st\<lparr>nextId := Suc (nextId st), returned := returned st @ [(nextId st, r)]\<rparr>)"
proof -
  note D = superseded_D[OF a]
  from D(2) have ne: "nextId st \<noteq> i" by simp
  show ?thesis
    by (rule superseded_invocations[OF a]) (simp_all add: D(3-7) ne ne[symmetric])
qed

lemma superseded_provide:
  assumes a: "superseded d i p s position st"
  shows "superseded d i p s position (provide gate p' s' position' st)"
proof (cases gate)
  case False
  then have "provide gate p' s' position' st =
      st\<lparr>nextId := Suc (nextId st), returned := returned st @ [(nextId st, Inr [])]\<rparr>"
    by (simp add: provide_def Let_def)
  then show ?thesis using superseded_add_returned[OF a] by simp
next
  case True
  show ?thesis
  proof (cases "findMatchingSuggestion p' s' (suggestionsHistory st)")
    case None
    note D = superseded_D[OF a]
    from D(2) have ne: "nextId st \<noteq> i" by simp
    from None True have e: "provide gate p' s' position' st =
        st\<lparr>nextId := Suc (nextId st), invocations := invocations st @ [(nextId st, AwaitPrompt p' s' position')]\<rparr>"
      by (simp add: provide_def Let_def)
    show ?thesis unfolding e
      by (rule superseded_invocations[OF a]) (simp_all add: D(3-7) ne ne[symmetric])
  next
    case (Some t)
    with True have "provide gate p' s' position' st =
        st\<lparr>nextId := Suc (nextId st),
           returned := returned st @ [(nextId st, Inr (stringToInlineCompletions t position'))]\<rparr>"
      by (simp add: provide_def Let_def)
    then show ?thesis using superseded_add_returned[OF a] by simp
  qed
qed

lemma debounce_timers:
  "fst ` set (timers (snd (debouncedFetchAndCacheSuggestion prompt st)))
          \<subseteq> insert (nextId st) (fst ` set (timers st))"
  by (cases "debounceTimer st")
     (auto simp: debouncedFetchAndCacheSuggestion_def clearTimeout_def Let_def AList.delete_eq)

lemma superseded_debounce:
  assumes a: "superseded d i p s position st"
  shows "superseded d i p s position (snd (debouncedFetchAndCacheSuggestion prompt st))"
proof -
  note D = superseded_D[OF a]
  note fr = debounce_frame[of prompt st]
  from D(1) have dn: "nextId st \<noteq> d" by simp
  have "d \<notin> insert (nextId st) (fst ` set (timers st))" using D(3) dn by simp
  with debounce_timers[of prompt st]
  have t: "d \<notin> fst ` set (timers (snd (debouncedFetchAndCacheSuggestion prompt st)))"
    by (rule contra_subsetD)
  show ?thesis
    by (rule superseded_invocations[OF a]) (simp_all add: D(3-7) fr t dn dn[symmetric])
qed

lemma superseded_promptResolves:
  assumes a: "superseded d i p s position st"
  shows "superseded d i p s position (promptResolves j prompt st)"
proof (cases "map_of (invocations st) j")
  case None
  then show ?thesis using a by (simp add: promptResolves_def)
next
  case (Some inv)
  show ?thesis
  proof (cases inv)
    case (AwaitDebounce d' p' s' position')
    then show ?thesis using Some a by (simp add: promptResolves_def)
  next
    case (AwaitPrompt p' s' position')
    with Some superseded_map_of[OF a] have ne: "j \<noteq> i" by auto
    obtain d' st1 where s1: "debouncedFetchAndCacheSuggestion prompt st = (d', st1)"
      by (cases "debouncedFetchAndCacheSuggestion prompt st")
    with superseded_debounce[OF a, of prompt] have b: "superseded d i p s position st1" by simp
    note D = superseded_D[OF b]
    have "superseded d i p s position
            (st1\<lparr>invocations := AList.update j (AwaitDebounce d' p' s' position') (invocations st1)\<rparr>)"
      by (rule superseded_invocations[OF b]) (simp_all add: D(3-7) ne ne[symmetric] filter_update_other)
    then show ?thesis using Some AwaitPrompt s1 by (simp add: promptResolves_def)
  qed
qed

lemma superseded_promptRejects:
  assumes a: "superseded d i p s position st"
  shows "superseded d i p s position (promptRejects j e st)"
proof (cases "map_of (invocations st) j")
  case None
  then show ?thesis using a by (simp add: promptRejects_def)
next
  case (Some inv)
  show ?thesis
  proof (cases inv)
    case (AwaitDebounce d' p' s' position')
    then show ?thesis using Some a by (simp add: promptRejects_def)
  next
    case (AwaitPrompt p' s' position')
    with Some superseded_map_of[OF a] have ne: "j \<noteq> i" by auto
    note D = superseded_D[OF a]
    have "superseded d i p s position
            (st\<lparr>invocations := AList.delete j (invocations st), returned := returned st @ [(j, Inl e)]\<rparr>)"
      by (rule superseded_invocations[OF a]) (simp_all add: D(3-7) ne ne[symmetric] filter_delete_other)
    then show ?thesis using Some AwaitPrompt by (simp add: promptRejects_def)
  qed
qed

lemma superseded_timerFires:
  assumes a: "superseded d i p s position st"
  shows "superseded d i p s position (timerFires t st)"
proof (cases "map_of (timers st) t")
  case None
  then show ?thesis using a by (simp add: timerFires_def)
next
  case (Some prompt)
  note D = superseded_D[OF a]
  from Some have "(t, prompt) \<in> set (timers st)" by (rule map_of_SomeD)
  then have "t \<in> fst ` set (timers st)" by force
  with D have ne: "t \<noteq> d" by auto
  let ?st0 = "st\<lparr>timers := AList.delete t (timers st), debounceTimer := None\<rparr>"
  have dl: "d \<notin> fst ` set (AList.delete t (timers st))" using D(3) by (auto simp: AList.delete_eq)
  have "superseded d i p s position (fetchAndCacheSuggestion prompt t ?st0)"
  proof (cases "findReusablePendingRequest (prefix prompt) (suffix prompt) (pendingRequests ?st0)")
    case None
    then have e: "fetchAndCacheSuggestion prompt t ?st0 = startNewRequest prompt t ?st0"
      by (simp add: fetchAndCacheSuggestion_def)
    show ?thesis unfolding e
      by (rule superseded_invocations[OF a])
         (simp_all add: D(3-7) ne ne[symmetric] dl startNewRequest_frame)
  next
    case (Some r)
    then have e: "fetchAndCacheSuggestion prompt t ?st0 =
        ?st0\<lparr>waiters := waiters ?st0 @ [(promise r, Reuser r prompt t)]\<rparr>"
      by (simp add: fetchAndCacheSuggestion_def)
    show ?thesis unfolding e
      by (rule superseded_invocations[OF a]) (simp_all add: D(3-7) ne ne[symmetric] dl)
  qed
  then show ?thesis using Some by (simp add: timerFires_def)
qed

lemma superseded_dispose:
  assumes a: "superseded d i p s position st"
  shows "superseded d i p s position (dispose st)"
proof -
  note D = superseded_D[OF a]
  have 1: "fst ` set (timers (dispose st)) \<subseteq> fst ` set (timers st)"
    by (cases "debounceTimer st")
       (auto simp: dispose_def clearTimeout_def Let_def abortAll_frame AList.delete_eq)
  have 2: "debounceTimer (dispose st) = None"
    by (cases "debounceTimer st") (simp_all add: dispose_def clearTimeout_def Let_def abortAll_frame)
  have 3: "nextId (dispose st) = nextId st \<and> waiters (dispose st) = waiters st
     \<and> resolved (dispose st) = resolved st \<and> invocations (dispose st) = invocations st
     \<and> returned (dispose st) = returned st"
    by (cases "debounceTimer st") (simp_all add: dispose_def clearTimeout_def Let_def abortAll_frame)
  from 1 D(3) have 4: "d \<notin> fst ` set (timers (dispose st))" by blast
  show ?thesis
    by (rule superseded_invocations[OF a]) (simp_all add: D(3-7) 2 3 4)
qed

lemma superseded_not_ready:
  assumes a: "superseded d i p s position st" and m: "x \<in> set (invocations st)" and k: "fst x = i"
  shows "\<not> isReady st (snd x)"
proof -
  from a have u: "\<forall>x \<in> set (invocations st). fst x = i \<longrightarrow> snd x = AwaitDebounce d p s position"
    unfolding superseded_def by blast
  from bspec[OF u m] k have "snd x = AwaitDebounce d p s position" by simp
  moreover from superseded_D(6)[OF a] have "\<not> isReady st (AwaitDebounce d p s position)" by simp
  ultimately show ?thesis by simp
qed

lemma superseded_returnResolved:
  assumes a: "superseded d i p s position st"
  shows "superseded d i p s position (returnResolved st)"
proof (rule superseded_invocations[OF a])
  note D = superseded_D[OF a]
  show "nextId st \<le> nextId (returnResolved st)" by (simp add: returnResolved_def)
  show "d \<notin> fst ` set (timers (returnResolved st))" using D(3) by (simp add: returnResolved_def)
  show "debounceTimer (returnResolved st) \<noteq> Some d" using D(4) by (simp add: returnResolved_def)
  show "\<forall>x\<in>set (waiters (returnResolved st)). waiterDebounce (snd x) \<noteq> d"
    using D(5) by (simp add: returnResolved_def)
  show "d \<notin> set (resolved (returnResolved st))" using D(6) by (simp add: returnResolved_def)
  have "filter (\<lambda>x. fst x = i) (filter (\<lambda>(j, call). \<not> isReady st call) (invocations st))
        = filter (\<lambda>x. fst x = i) (invocations st)"
    unfolding filter_filter
  proof (rule filter_cong[OF refl])
    fix x assume m: "x \<in> set (invocations st)"
    show "((case x of (j, w) \<Rightarrow> \<not> isReady st w) \<and> fst x = i) = (fst x = i)"
      using superseded_not_ready[OF a m] by (cases x) auto
  qed
  then show "filter (\<lambda>x. fst x = i) (invocations (returnResolved st)) = filter (\<lambda>x. fst x = i) (invocations st)"
    by (simp add: returnResolved_def)
  have "i \<notin> fst ` set (filter (\<lambda>(j, call). isReady st call) (invocations st))"
  proof
    assume "i \<in> fst ` set (filter (\<lambda>(j, call). isReady st call) (invocations st))"
    then obtain x where x: "x \<in> set (invocations st)" "fst x = i" "isReady st (snd x)"
      by (auto simp: case_prod_beta)
    with superseded_not_ready[OF a x(1) x(2)] show False by simp
  qed
  then have "i \<notin> fst ` set (map (\<lambda>(j, call). (j, Inr (completionsAfterFetch st call) :: thrown + InlineCompletionItem list))
            (filter (\<lambda>(j, call). isReady st call) (invocations st)))"
    by (simp add: image_image case_prod_beta)
  with D(7) show "i \<notin> fst ` set (returned (returnResolved st))"
    by (simp add: returnResolved_def image_Un)
qed

lemma superseded_llmSettles:
  assumes a: "superseded d i p s position st"
  shows "superseded d i p s position (llmSettles n outcome st)"
proof (cases "map_of (inflight st) n")
  case None
  then show ?thesis using a by (simp add: llmSettles_def)
next
  case (Some prompt)
  note D = superseded_D[OF a]
  let ?st0 = "st\<lparr>inflight := AList.delete n (inflight st)\<rparr>"
  obtain v st1 where s: "settleRequest n prompt outcome ?st0 = (v, st1)"
    by (cases "settleRequest n prompt outcome ?st0")
  let ?st2 = "st1\<lparr>waiters := filter (\<lambda>(i, w). i \<noteq> n) (waiters st1)\<rparr>"
  let ?ws = "map snd (filter (\<lambda>(i, w). i = n) (waiters st1))"
  let ?st3 = "fold (resumeWaiter v) ?ws ?st2"
  from settleRequest_frame[of n prompt outcome ?st0] s
  have fr: "waiters st1 = waiters st" "debounceTimer st1 = debounceTimer st" "timers st1 = timers st"
    "invocations st1 = invocations st" "resolved st1 = resolved st" "returned st1 = returned st"
    "nextId st1 = nextId st" by simp_all
  note ff = fold_resumeWaiter_frame[of v ?ws ?st2]
  have wsd: "d \<notin> waiterDebounce ` set ?ws" using D(5) fr(1) by (auto simp: case_prod_beta)
  have "superseded d i p s position ?st3"
  proof (rule superseded_invocations[OF a])
    show "nextId st \<le> nextId ?st3" using ff fr(7) by simp
    show "d \<notin> fst ` set (timers ?st3)" using ff fr(3) D(3) by simp
    show "debounceTimer ?st3 \<noteq> Some d" using ff fr(2) D(4) by simp
    show "d \<notin> set (resolved ?st3)"
    proof
      assume "d \<in> set (resolved ?st3)"
      with ff have "d \<in> waiterDebounce ` set ?ws \<union> set (resolved ?st2)" by blast
      with wsd D(6) fr(5) show False by simp
    qed
    show "\<forall>x\<in>set (waiters ?st3). waiterDebounce (snd x) \<noteq> d"
    proof
      fix x assume "x \<in> set (waiters ?st3)"
      with ff have "x \<in> set (waiters ?st2) \<or> waiterDebounce (snd x) \<in> waiterDebounce ` set ?ws" by blast
      then show "waiterDebounce (snd x) \<noteq> d"
      proof
        assume "x \<in> set (waiters ?st2)"
        then have "x \<in> set (waiters st)" using fr(1) by simp
        with D(5) show ?thesis by blast
      next
        assume "waiterDebounce (snd x) \<in> waiterDebounce ` set ?ws"
        with wsd show ?thesis by auto
      qed
    qed
    show "filter (\<lambda>x. fst x = i) (invocations ?st3) = filter (\<lambda>x. fst x = i) (invocations st)"
      using ff fr(4) by simp
    show "i \<notin> fst ` set (returned ?st3)" using ff fr(6) D(7) by simp
  qed
  then have "superseded d i p s position (returnResolved ?st3)" by (rule superseded_returnResolved)
  then show ?thesis using Some s by (simp add: llmSettles_def)
qed

lemma superseded_step: "superseded d i p s position st \<Longrightarrow> superseded d i p s position (step ev st)"
  by (cases ev)
     (simp_all add: superseded_provide superseded_promptResolves superseded_promptRejects
        superseded_timerFires superseded_llmSettles superseded_dispose)

lemma superseded_run: "superseded d i p s position st \<Longrightarrow> superseded d i p s position (run es st)"
  unfolding run_def by (induction es arbitrary: st) (simp_all add: superseded_step)

lemma pushSuggestion_duplicate: "f \<in> set h \<Longrightarrow> pushSuggestion f h = h"
  by (simp add: pushSuggestion_def isDuplicate_iff)

lemma pushSuggestion_room:
  "f \<notin> set h \<Longrightarrow> length h < MAX_SUGGESTIONS_HISTORY \<Longrightarrow> pushSuggestion f h = h @ [f]"
  by (simp add: pushSuggestion_def isDuplicate_iff)

lemma pushSuggestion_full:
  "f \<notin> set h \<Longrightarrow> length h \<ge> MAX_SUGGESTIONS_HISTORY \<Longrightarrow> pushSuggestion f h = tl (h @ [f])"
  by (simp add: pushSuggestion_def isDuplicate_iff)

lemma pushSuggestion_mem: "f \<in> set (pushSuggestion f h)"
  by (cases h) (auto simp: pushSuggestion_def isDuplicate_iff MAX_SUGGESTIONS_HISTORY_def)

lemma fold_pushSuggestion_distinct:
  "distinct fs \<Longrightarrow> fold pushSuggestion fs [] = drop (length fs - MAX_SUGGESTIONS_HISTORY) fs"
proof (induction fs rule: rev_induct)
  case Nil
  then show ?case by simp
next
  case (snoc f fs)
  let ?h = "drop (length fs - MAX_SUGGESTIONS_HISTORY) fs"
  from snoc have h: "fold pushSuggestion fs [] = ?h" and nf: "f \<notin> set fs" by auto
  from nf have nd: "f \<notin> set ?h" by (meson in_set_dropD)
  show ?case
  proof (cases "length fs < MAX_SUGGESTIONS_HISTORY")
    case True
    then have "pushSuggestion f ?h = ?h @ [f]" using nd by (simp add: pushSuggestion_room)
    with True h show ?thesis by simp
  next
    case False
    then have len: "length ?h = MAX_SUGGESTIONS_HISTORY" by simp
    then have ne: "?h \<noteq> []" by (auto simp: MAX_SUGGESTIONS_HISTORY_def)
    have "pushSuggestion f ?h = tl (?h @ [f])" using nd len by (simp add: pushSuggestion_full)
    also have "\<dots> = tl ?h @ [f]" using ne by simp
    also have "\<dots> = drop (Suc (length fs - MAX_SUGGESTIONS_HISTORY)) fs @ [f]"
      by (simp add: tl_drop drop_Suc)
    also have "\<dots> = drop (length (fs @ [f]) - MAX_SUGGESTIONS_HISTORY) (fs @ [f])"
    proof -
      have "Suc (length fs - MAX_SUGGESTIONS_HISTORY) = length (fs @ [f]) - MAX_SUGGESTIONS_HISTORY"
        using False by (simp add: MAX_SUGGESTIONS_HISTORY_def)
      moreover have "length (fs @ [f]) - MAX_SUGGESTIONS_HISTORY \<le> length fs"
        by (simp add: MAX_SUGGESTIONS_HISTORY_def)
      ultimately show ?thesis by (simp del: length_append)
    qed
    finally show ?thesis using h by simp
  qed
qed

lemma scanSuggestions_None:
  "scanSuggestions p s es = None \<longleftrightarrow> (\<forall>e\<in>set es. \<not> exactHit p s e \<and> \<not> typedAheadHit p s e)"
  by (induction es) (auto simp: exactHit_def typedAheadHit_def substring_def)

lemma scanSuggestions_hit:
  "exactHit p s a \<or> typedAheadHit p s a \<Longrightarrow>
   scanSuggestions p s (a # es) =
     Some (if exactHit p s a then text a else drop (length (drop (length (prefix a)) p)) (text a))"
  by (auto simp: exactHit_def typedAheadHit_def substring_def)

lemma scanSuggestions_miss:
  "\<not> exactHit p s a \<Longrightarrow> \<not> typedAheadHit p s a \<Longrightarrow> scanSuggestions p s (a # es) = scanSuggestions p s es"
  by (auto simp: exactHit_def typedAheadHit_def substring_def)

lemma scanSuggestions_skip:
  "\<forall>e\<in>set newer. \<not> exactHit p s e \<and> \<not> typedAheadHit p s e \<Longrightarrow>
   scanSuggestions p s (newer @ es) = scanSuggestions p s es"
  by (induction newer) (simp_all add: scanSuggestions_miss del: scanSuggestions.simps)

lemma scanSuggestions_Some:
  "scanSuggestions p s es = Some t \<Longrightarrow>
     \<exists>newer e older. es = newer @ e # older
        \<and> (\<forall>e'\<in>set newer. \<not> exactHit p s e' \<and> \<not> typedAheadHit p s e')
        \<and> (exactHit p s e \<or> typedAheadHit p s e)
        \<and> t = (if exactHit p s e then text e else drop (length (drop (length (prefix e)) p)) (text e))"
proof (induction es)
  case Nil
  then show ?case by simp
next
  case (Cons a es)
  show ?case
  proof (cases "exactHit p s a \<or> typedAheadHit p s a")
    case True
    from scanSuggestions_hit[OF True, of es] Cons.prems
    have "t = (if exactHit p s a then text a else drop (length (drop (length (prefix a)) p)) (text a))"
      by simp
    with True show ?thesis by (intro exI[of _ "[]"] exI[of _ a] exI[of _ es]) simp
  next
    case False
    with Cons.prems have "scanSuggestions p s es = Some t" by (simp add: scanSuggestions_miss del: scanSuggestions.simps)
    from Cons.IH[OF this] obtain newer e older where
      h: "es = newer @ e # older" "\<forall>e'\<in>set newer. \<not> exactHit p s e' \<and> \<not> typedAheadHit p s e'"
         "exactHit p s e \<or> typedAheadHit p s e"
         "t = (if exactHit p s e then text e else drop (length (drop (length (prefix e)) p)) (text e))"
      by blast
    with False show ?thesis by (intro exI[of _ "a # newer"] exI[of _ e] exI[of _ older]) simp
  qed
qed

lemma typedAheadHit_iff:
  "typedAheadHit p s e \<longleftrightarrow>
     (text e \<noteq> '''' \<and> suffix e = s \<and> (\<exists>typed rest. p = prefix e @ typed \<and> text e = typed @ rest))"
  unfolding typedAheadHit_def startsWith_iff by auto

lemma typedAhead_rest:
  "p = prefix e @ typed \<Longrightarrow> text e = typed @ rest \<Longrightarrow>
   drop (length (drop (length (prefix e)) p)) (text e) = rest"
  by simp

text \<open>
  C4. \<open>findMatchingSuggestion\<close> returns nothing exactly when no entry of the history
  hits. When it returns a text, the history splits into older entries, one entry, and
  newer entries none of which hits, such that the entry matches exactly and the text is
  its text, or it does not match exactly but matches typed-ahead, and its text is what
  was typed since its prefix followed by the text returned. The facade's fast path,
  which is a call of the matcher, leaves the history as it was.
\<close>

theorem findMatchingSuggestion_first_hit:
  "(findMatchingSuggestion p s h = None \<longleftrightarrow> (\<forall>e\<in>set h. \<not> exactHit p s e \<and> \<not> typedAheadHit p s e))
   \<and> (\<forall>t. findMatchingSuggestion p s h = Some t \<longrightarrow>
         (\<exists>older e newer. h = older @ e # newer
            \<and> (\<forall>e'\<in>set newer. \<not> exactHit p s e' \<and> \<not> typedAheadHit p s e')
            \<and> ((exactHit p s e \<and> t = text e)
                \<or> (\<not> exactHit p s e \<and> text e \<noteq> '''' \<and> suffix e = s
                    \<and> (\<exists>typed. p = prefix e @ typed \<and> text e = typed @ t)))))
   \<and> suggestionsHistory (provide gate p s position st) = suggestionsHistory st"
proof (intro conjI allI impI)
  show "findMatchingSuggestion p s h = None \<longleftrightarrow> (\<forall>e\<in>set h. \<not> exactHit p s e \<and> \<not> typedAheadHit p s e)"
    by (simp add: findMatchingSuggestion_def scanSuggestions_None)
next
  fix t assume "findMatchingSuggestion p s h = Some t"
  then have "scanSuggestions p s (rev h) = Some t" by (simp add: findMatchingSuggestion_def)
  from scanSuggestions_Some[OF this] obtain newer e older where
    h: "rev h = newer @ e # older" "\<forall>e'\<in>set newer. \<not> exactHit p s e' \<and> \<not> typedAheadHit p s e'"
       "exactHit p s e \<or> typedAheadHit p s e"
       "t = (if exactHit p s e then text e else drop (length (drop (length (prefix e)) p)) (text e))"
    by blast
  from h(1) have "rev (rev h) = rev (newer @ e # older)" by (rule arg_cong)
  then have eq: "h = rev older @ e # rev newer" by simp
  from h(2) have nw: "\<forall>e'\<in>set (rev newer). \<not> exactHit p s e' \<and> \<not> typedAheadHit p s e'" by simp
  have "(exactHit p s e \<and> t = text e)
        \<or> (\<not> exactHit p s e \<and> text e \<noteq> '''' \<and> suffix e = s
            \<and> (\<exists>typed. p = prefix e @ typed \<and> text e = typed @ t))"
  proof (cases "exactHit p s e")
    case True
    with h(4) show ?thesis by simp
  next
    case False
    with h(3) have ta: "typedAheadHit p s e" by simp
    then obtain typed rest where tr: "text e \<noteq> ''''" "suffix e = s" "p = prefix e @ typed" "text e = typed @ rest"
      unfolding typedAheadHit_iff by blast
    from False h(4) typedAhead_rest[OF tr(3) tr(4)] have "t = rest" by simp
    with tr False show ?thesis by blast
  qed
  with eq nw show "\<exists>older e newer. h = older @ e # newer
            \<and> (\<forall>e'\<in>set newer. \<not> exactHit p s e' \<and> \<not> typedAheadHit p s e')
            \<and> ((exactHit p s e \<and> t = text e)
                \<or> (\<not> exactHit p s e \<and> text e \<noteq> '''' \<and> suffix e = s
                    \<and> (\<exists>typed. p = prefix e @ typed \<and> text e = typed @ t)))"
    by blast
next
  show "suggestionsHistory (provide gate p s position st) = suggestionsHistory st"
    by (cases gate; cases "findMatchingSuggestion p s (suggestionsHistory st)")
       (simp_all add: provide_def Let_def)
qed

theorem findMatchingSuggestion_first_hit_witness:
  "findMatchingSuggestion ''const x = fun'' testSuffix
      [\<lparr>prefix = ''const x = f'', suffix = testSuffix, text = ''unction test() {}''\<rparr>,
       \<lparr>prefix = ''let y'', suffix = testSuffix, text = '' = 1''\<rparr>]
     = Some ''ction test() {}''
   \<and> (\<exists>older e newer.
         [\<lparr>prefix = ''const x = f'', suffix = testSuffix, text = ''unction test() {}''\<rparr>,
          \<lparr>prefix = ''let y'', suffix = testSuffix, text = '' = 1''\<rparr>] = older @ e # newer
         \<and> (\<forall>e'\<in>set newer. \<not> exactHit ''const x = fun'' testSuffix e'
                \<and> \<not> typedAheadHit ''const x = fun'' testSuffix e')
         \<and> ((exactHit ''const x = fun'' testSuffix e \<and> ''ction test() {}'' = text e)
             \<or> (\<not> exactHit ''const x = fun'' testSuffix e \<and> text e \<noteq> '''' \<and> suffix e = testSuffix
                 \<and> (\<exists>typed. ''const x = fun'' = prefix e @ typed \<and> text e = typed @ ''ction test() {}''))))
   \<and> findMatchingSuggestion ''let z'' testSuffix
        [\<lparr>prefix = ''const x = f'', suffix = testSuffix, text = ''unction test() {}''\<rparr>] = None"
proof -
  let ?h = "[\<lparr>prefix = ''const x = f'', suffix = testSuffix, text = ''unction test() {}''\<rparr>,
             \<lparr>prefix = ''let y'', suffix = testSuffix, text = '' = 1''\<rparr>]"
  have a: "findMatchingSuggestion ''const x = fun'' testSuffix ?h = Some ''ction test() {}''"
    by (simp add: findMatchingSuggestion_def startsWith_def substring_def)
  have b: "\<forall>e\<in>set [\<lparr>prefix = ''const x = f'', suffix = testSuffix, text = ''unction test() {}''\<rparr>].
             \<not> exactHit ''let z'' testSuffix e \<and> \<not> typedAheadHit ''let z'' testSuffix e"
    by (simp add: exactHit_def typedAheadHit_def startsWith_def)
  from findMatchingSuggestion_first_hit[of "''const x = fun''" testSuffix ?h] a
    findMatchingSuggestion_first_hit[of "''let z''" testSuffix
      "[\<lparr>prefix = ''const x = f'', suffix = testSuffix, text = ''unction test() {}''\<rparr>]"] b
  show ?thesis by blast
qed

text \<open>
  C6. In every state the engine reaches, the history holds at most 20 entries and no entry
  twice. \<open>updateSuggestions\<close> changes nothing when the candidate is in the history;
  a candidate that is not there is put last, and when the history was full the oldest entry
  goes. 25 suggestions, no two of them equal, put into the empty history one after the
  other leave the last 20 of them.
\<close>

theorem history_bounded_distinct:
  "(length (suggestionsHistory (run es init)) \<le> 20 \<and> distinct (suggestionsHistory (run es init)))
   \<and> (f \<in> set (suggestionsHistory st) \<longrightarrow> updateSuggestions f st = st)
   \<and> (f \<notin> set (suggestionsHistory st) \<and> length (suggestionsHistory st) < 20 \<longrightarrow>
        suggestionsHistory (updateSuggestions f st) = suggestionsHistory st @ [f])
   \<and> (f \<notin> set (suggestionsHistory st) \<and> length (suggestionsHistory st) = 20 \<longrightarrow>
        suggestionsHistory (updateSuggestions f st) = tl (suggestionsHistory st) @ [f])
   \<and> (distinct fs \<and> length fs = 25 \<longrightarrow>
        suggestionsHistory (fold updateSuggestions fs init) = drop 5 fs
        \<and> length (suggestionsHistory (fold updateSuggestions fs init)) = 20)"
proof (intro conjI impI)
  have "histOk (run es init)" using histOk_init by (rule histOk_run)
  then show "length (suggestionsHistory (run es init)) \<le> 20" "distinct (suggestionsHistory (run es init))"
    by (simp_all add: histOk_def MAX_SUGGESTIONS_HISTORY_def)
next
  assume "f \<in> set (suggestionsHistory st)"
  then show "updateSuggestions f st = st"
    by (simp add: updateSuggestions_def pushSuggestion_duplicate)
next
  assume "f \<notin> set (suggestionsHistory st) \<and> length (suggestionsHistory st) < 20"
  then show "suggestionsHistory (updateSuggestions f st) = suggestionsHistory st @ [f]"
    by (simp add: updateSuggestions_def pushSuggestion_room MAX_SUGGESTIONS_HISTORY_def)
next
  assume a: "f \<notin> set (suggestionsHistory st) \<and> length (suggestionsHistory st) = 20"
  then have "suggestionsHistory st \<noteq> []" by auto
  with a show "suggestionsHistory (updateSuggestions f st) = tl (suggestionsHistory st) @ [f]"
    by (simp add: updateSuggestions_def pushSuggestion_full MAX_SUGGESTIONS_HISTORY_def)
next
  assume a: "distinct fs \<and> length fs = 25"
  have f: "\<And>st. suggestionsHistory (fold updateSuggestions fs st) = fold pushSuggestion fs (suggestionsHistory st)"
    by (induction fs) (simp_all add: updateSuggestions_def)
  from a show "suggestionsHistory (fold updateSuggestions fs init) = drop 5 fs"
    by (simp add: f init_def fold_pushSuggestion_distinct MAX_SUGGESTIONS_HISTORY_def)
  with a show "length (suggestionsHistory (fold updateSuggestions fs init)) = 20" by simp
qed

theorem history_bounded_distinct_witness:
  "length (suggestionsHistory
      (run (trigger 0 ''const x = '' @ [LlmSettles 2 (Returns ''test suggestion'' testUsage)]) init)) \<le> 20
   \<and> distinct (suggestionsHistory
      (run (trigger 0 ''const x = '' @ [LlmSettles 2 (Returns ''test suggestion'' testUsage)]) init))
   \<and> updateSuggestions (numberedSuggestion 1) (fold updateSuggestions (map numberedSuggestion [0..<3]) init)
       = fold updateSuggestions (map numberedSuggestion [0..<3]) init
   \<and> suggestionsHistory (updateSuggestions (numberedSuggestion 7)
          (fold updateSuggestions (map numberedSuggestion [0..<3]) init))
       = map numberedSuggestion [0..<3] @ [numberedSuggestion 7]
   \<and> suggestionsHistory (updateSuggestions (numberedSuggestion 20)
          (fold updateSuggestions (map numberedSuggestion [0..<20]) init))
       = map numberedSuggestion [1..<21]
   \<and> suggestionsHistory (fold updateSuggestions (map numberedSuggestion [0..<25]) init)
       = map numberedSuggestion [5..<25]"
proof -
  let ?st3 = "fold updateSuggestions (map numberedSuggestion [0..<3]) init"
  let ?st20 = "fold updateSuggestions (map numberedSuggestion [0..<20]) init"
  have h3: "suggestionsHistory ?st3 = map numberedSuggestion [0..<3]" by code_simp
  have h20: "suggestionsHistory ?st20 = map numberedSuggestion [0..<20]" by code_simp
  have a: "numberedSuggestion 1 \<in> set (suggestionsHistory ?st3)" unfolding h3 by code_simp
  have b: "numberedSuggestion 7 \<notin> set (suggestionsHistory ?st3) \<and> length (suggestionsHistory ?st3) < 20"
    unfolding h3 by code_simp
  have c: "numberedSuggestion 20 \<notin> set (suggestionsHistory ?st20) \<and> length (suggestionsHistory ?st20) = 20"
    unfolding h20 by code_simp
  have d: "distinct (map numberedSuggestion [0..<25]) \<and> length (map numberedSuggestion [0..<25]) = 25"
    by code_simp
  have e: "tl (map numberedSuggestion [0..<20]) @ [numberedSuggestion 20] = map numberedSuggestion [1..<21]"
    by code_simp
  have f: "drop 5 (map numberedSuggestion [0..<25]) = map numberedSuggestion [5..<25]"
    by code_simp
  from history_bounded_distinct[of "trigger 0 ''const x = '' @ [LlmSettles 2 (Returns ''test suggestion'' testUsage)]"
      "numberedSuggestion 1" ?st3 "map numberedSuggestion [0..<25]"]
    history_bounded_distinct[of "[]" "numberedSuggestion 7" ?st3 "[]"]
    history_bounded_distinct[of "[]" "numberedSuggestion 20" ?st20 "[]"]
    a b c d e f h3 h20
  show ?thesis by simp
qed

lemma run_snoc: "run (es @ [ev]) st = step ev (run es st)"
  by (simp add: run_def)

lemma run_append: "run (es @ es') st = run es' (run es st)"
  by (simp add: run_def)

lemma run_Cons: "run (ev # es) st = run es (step ev st)"
  by (simp add: run_def)

lemma regOk_distinct_contexts:
  assumes r: "regOk st"
  shows "distinct (map (\<lambda>(k, e). (prefix e, suffix e)) (pendingRequests st))"
proof -
  let ?g = "\<lambda>(k, e). (prefix e, suffix e) :: string \<times> string"
  let ?h = "\<lambda>(p, s). getCacheKey p s"
  have eq: "map fst (pendingRequests st) = map (?h \<circ> ?g) (pendingRequests st)"
    using r by (auto simp: regOk_def)
  from r have "distinct (map fst (pendingRequests st))" by (simp add: regOk_def)
  then have "distinct (map (?h \<circ> ?g) (pendingRequests st))" by (simp only: eq)
  then have "distinct (pendingRequests st)" "inj_on (?h \<circ> ?g) (set (pendingRequests st))"
    by (simp_all only: distinct_map)
  from this(2) have "inj_on ?g (set (pendingRequests st))" by (rule inj_on_imageI2)
  with \<open>distinct (pendingRequests st)\<close> show ?thesis by (simp only: distinct_map)
qed

lemma settleRequest_cleans:
  "map_of (pendingRequests (snd (settleRequest n prompt outcome st)))
     (getCacheKey (prefix prompt) (suffix prompt)) = None"
  using settleRequest_frame[of n prompt outcome st] by (simp add: delete_conv')

text \<open>
  C5. In every state the engine reaches, no two entries of the map of pending requests
  have the same key, nor the same prefix and suffix. When \<open>getFromLLM\<close> of a request
  has ended, whatever its outcome, the map holds no entry with that request's promise:
  the \<open>finally\<close> block of the request has deleted the request's key, and this holds for
  the body of any request in any state.
\<close>

theorem pendingRequests_unique_and_cleaned:
  "distinct (map fst (pendingRequests (run es init)))
   \<and> distinct (map (\<lambda>(k, e). (prefix e, suffix e)) (pendingRequests (run es init)))
   \<and> (\<forall>(k, e) \<in> set (pendingRequests (run (es @ [LlmSettles n outcome]) init)). promise e \<noteq> n)
   \<and> map_of (pendingRequests (snd (settleRequest n prompt outcome st)))
        (getCacheKey (prefix prompt) (suffix prompt)) = None"
proof (intro conjI)
  have r: "regOk (run es init)" using regOk_init by (rule regOk_run)
  then show "distinct (map fst (pendingRequests (run es init)))" by (simp add: regOk_def)
  from r show "distinct (map (\<lambda>(k, e). (prefix e, suffix e)) (pendingRequests (run es init)))"
    by (rule regOk_distinct_contexts)
  show "\<forall>(k, e) \<in> set (pendingRequests (run (es @ [LlmSettles n outcome]) init)). promise e \<noteq> n"
    unfolding run_snoc using llmSettles_removes[OF r] by auto
  show "map_of (pendingRequests (snd (settleRequest n prompt outcome st)))
        (getCacheKey (prefix prompt) (suffix prompt)) = None"
    by (rule settleRequest_cleans)
qed

theorem pendingRequests_unique_and_cleaned_witness:
  "map (promise \<circ> snd) (pendingRequests (run (trigger 0 ''const x = f'') init)) = [2]
   \<and> 2 \<notin> (promise \<circ> snd) ` set (pendingRequests
          (run (trigger 0 ''const x = f'' @ [LlmSettles 2 (Throws (Thrown True ''Error'' ''network''))]) init))
   \<and> distinct (map fst (pendingRequests (run (trigger 0 ''const x = f'' @ trigger 3 ''const x = g'') init)))
   \<and> map_of (pendingRequests (snd (settleRequest 2 (testPrompt ''const x = f'')
                (Throws (Thrown True ''Error'' ''network'')) (run (trigger 0 ''const x = f'') init))))
        (getCacheKey ''const x = f'' testSuffix) = None"
proof -
  have a: "map (promise \<circ> snd) (pendingRequests (run (trigger 0 ''const x = f'') init)) = [2]"
    by code_simp
  note th = pendingRequests_unique_and_cleaned[of _ 2 "Throws (Thrown True ''Error'' ''network'')"
      "testPrompt ''const x = f''" "run (trigger 0 ''const x = f'') init"]
  from th[of "trigger 0 ''const x = f''", THEN conjunct2, THEN conjunct2, THEN conjunct1]
  have b: "2 \<notin> (promise \<circ> snd) ` set (pendingRequests
          (run (trigger 0 ''const x = f'' @ [LlmSettles 2 (Throws (Thrown True ''Error'' ''network''))]) init))"
    by auto
  from th[of "trigger 0 ''const x = f'' @ trigger 3 ''const x = g''", THEN conjunct1]
  have c: "distinct (map fst (pendingRequests (run (trigger 0 ''const x = f'' @ trigger 3 ''const x = g'') init)))" .
  from th[of "[]", THEN conjunct2, THEN conjunct2, THEN conjunct2]
  have d: "map_of (pendingRequests (snd (settleRequest 2 (testPrompt ''const x = f'')
                (Throws (Thrown True ''Error'' ''network'')) (run (trigger 0 ''const x = f'') init))))
        (getCacheKey ''const x = f'' testSuffix) = None"
    by (simp add: testPrompt_def)
  from a b c d show ?thesis by blast
qed

lemma timOk_armed:
  assumes t: "timOk st" and a: "d \<in> fst ` set (timers st)"
  shows "debounceTimer st = Some d" "d < nextId st"
    "\<forall>x \<in> set (waiters st). waiterDebounce (snd x) \<noteq> d" "d \<notin> set (resolved st)"
proof -
  from a obtain prompt where "(d, prompt) \<in> set (timers st)" by auto
  with t show dt: "debounceTimer st = Some d" unfolding timOk_def by blast
  with t show "d < nextId st" unfolding timOk_def by blast
  show "\<forall>x \<in> set (waiters st). waiterDebounce (snd x) \<noteq> d"
  proof
    fix x assume "x \<in> set (waiters st)"
    then have "(fst x, snd x) \<in> set (waiters st)" by simp
    with t have "waiterOk st (snd x)" unfolding timOk_def by blast
    with dt show "waiterDebounce (snd x) \<noteq> d" unfolding waiterOk_def by auto
  qed
  show "d \<notin> set (resolved st)"
  proof
    assume "d \<in> set (resolved st)"
    with t have "debounceTimer st \<noteq> Some d" unfolding timOk_def by blast
    with dt show False by simp
  qed
qed

lemma superseded_after_later_call:
  assumes t: "timOk st" and v: "invOk st"
    and armed: "d \<in> fst ` set (timers st)"
    and waits: "(i, AwaitDebounce d p s position) \<in> set (invocations st)"
    and later: "map_of (invocations st) j = Some (AwaitPrompt p' s' position')"
  shows "superseded d i p s position (promptResolves j prompt st)
         \<and> d \<notin> fst ` set (timers (promptResolves j prompt st))"
proof -
  note A = timOk_armed[OF t armed]
  note V = invOk_D[OF v]
  obtain d' st1 where s1: "debouncedFetchAndCacheSuggestion prompt st = (d', st1)"
    by (cases "debouncedFetchAndCacheSuggestion prompt st")
  have e: "promptResolves j prompt st =
      st1\<lparr>invocations := AList.update j (AwaitDebounce d' p' s' position') (invocations st1)\<rparr>"
    using later s1 by (simp add: promptResolves_def)
  note fr = debounce_frame[of prompt st]
  have dn: "nextId st \<noteq> d" using A(2) by simp
  have "timers (snd (debouncedFetchAndCacheSuggestion prompt st)) = [(nextId st, prompt)]"
    using A(1) timOk_delete_timers[OF t A(1)]
    by (simp add: debouncedFetchAndCacheSuggestion_def clearTimeout_def Let_def)
  then have tim1: "timers st1 = [(nextId st, prompt)]" using s1 by simp
  from later have "(j, AwaitPrompt p' s' position') \<in> set (invocations st)" by (rule map_of_SomeD)
  with waits V(1) have ji: "j \<noteq> i" by (auto dest: eq_key_imp_eq_value)
  have uniq: "\<forall>x \<in> set (invocations st). fst x = i \<longrightarrow> snd x = AwaitDebounce d p s position"
  proof (intro ballI impI)
    fix x assume "x \<in> set (invocations st)" "fst x = i"
    then have "(i, snd x) \<in> set (invocations st)" by auto
    with waits V(1) show "snd x = AwaitDebounce d p s position" by (rule eq_key_imp_eq_value[rotated 2])
  qed
  have iret: "i \<notin> fst ` set (returned st)"
  proof
    assume "i \<in> fst ` set (returned st)"
    then obtain r where "(i, r) \<in> set (returned st)" by auto
    from V(4)[OF this] waits show False by force
  qed
  have ilt: "i < nextId st" using V(2)[OF waits] .
  have f: "filter (\<lambda>x. fst x = i) (AList.update j (AwaitDebounce d' p' s' position') (invocations st))
           = filter (\<lambda>x. fst x = i) (invocations st)"
    using ji by (rule filter_update_other)
  have mem: "(i, AwaitDebounce d p s position) \<in> set (filter (\<lambda>x. fst x = i) (invocations st))"
    using waits by simp
  have inv1: "invocations st1 = invocations st" using fr s1 by simp
  have s: "superseded d i p s position (promptResolves j prompt st)"
    unfolding e superseded_def
  proof (intro conjI)
    show "d < nextId (st1\<lparr>invocations := AList.update j (AwaitDebounce d' p' s' position') (invocations st1)\<rparr>)"
      using fr s1 A(2) by simp
    show "i < nextId (st1\<lparr>invocations := AList.update j (AwaitDebounce d' p' s' position') (invocations st1)\<rparr>)"
      using fr s1 ilt by simp
    show "d \<notin> fst ` set (timers (st1\<lparr>invocations := AList.update j (AwaitDebounce d' p' s' position') (invocations st1)\<rparr>))"
      using tim1 dn by simp
    show "debounceTimer (st1\<lparr>invocations := AList.update j (AwaitDebounce d' p' s' position') (invocations st1)\<rparr>) \<noteq> Some d"
      using fr s1 dn by simp
    show "\<forall>x\<in>set (waiters (st1\<lparr>invocations := AList.update j (AwaitDebounce d' p' s' position') (invocations st1)\<rparr>)).
            waiterDebounce (snd x) \<noteq> d"
      using fr s1 A(3) by simp
    show "d \<notin> set (resolved (st1\<lparr>invocations := AList.update j (AwaitDebounce d' p' s' position') (invocations st1)\<rparr>))"
      using fr s1 A(4) by simp
    have "(i, AwaitDebounce d p s position)
            \<in> set (filter (\<lambda>x. fst x = i) (AList.update j (AwaitDebounce d' p' s' position') (invocations st)))"
      using mem by (simp only: f)
    then show "(i, AwaitDebounce d p s position)
        \<in> set (invocations (st1\<lparr>invocations := AList.update j (AwaitDebounce d' p' s' position') (invocations st1)\<rparr>))"
      by (simp add: inv1)
    show "\<forall>x\<in>set (invocations (st1\<lparr>invocations := AList.update j (AwaitDebounce d' p' s' position') (invocations st1)\<rparr>)).
            fst x = i \<longrightarrow> snd x = AwaitDebounce d p s position"
    proof (intro ballI impI)
      fix x assume "x \<in> set (invocations (st1\<lparr>invocations := AList.update j (AwaitDebounce d' p' s' position') (invocations st1)\<rparr>))"
        and k: "fst x = i"
      then have "x \<in> set (filter (\<lambda>x. fst x = i) (AList.update j (AwaitDebounce d' p' s' position') (invocations st)))"
        by (simp add: inv1)
      then have "x \<in> set (invocations st)" by (simp only: f) simp
      from bspec[OF uniq this] k show "snd x = AwaitDebounce d p s position" by simp
    qed
    show "i \<notin> fst ` set (returned (st1\<lparr>invocations := AList.update j (AwaitDebounce d' p' s' position') (invocations st1)\<rparr>))"
      using fr s1 iret by simp
  qed
  have "d \<notin> fst ` set (timers (promptResolves j prompt st))"
    unfolding e using tim1 dn by simp
  with s show ?thesis by simp
qed

text \<open>
  C10. A call of the provider waits for the promise of debounce call \<open>d\<close>, whose timer
  is armed, and a later call of \<open>debouncedFetchAndCacheSuggestion\<close> is made. This clears the
  timer of \<open>d\<close>, and then, whatever happens afterwards, the promise of \<open>d\<close> is never
  resolved and the waiting call never returns: it stays suspended on that promise.
\<close>

theorem superseded_debounce_never_settles:
  assumes armed: "d \<in> fst ` set (timers (run es1 init))"
    and waits: "(i, AwaitDebounce d p s position) \<in> set (invocations (run es1 init))"
    and later: "map_of (invocations (run es1 init)) j = Some (AwaitPrompt p' s' position')"
  shows "d \<notin> fst ` set (timers (run (es1 @ [PromptResolves j prompt]) init))
         \<and> d \<notin> set (resolved (run (es1 @ PromptResolves j prompt # es2) init))
         \<and> i \<notin> fst ` set (returned (run (es1 @ PromptResolves j prompt # es2) init))
         \<and> (i, AwaitDebounce d p s position)
              \<in> set (invocations (run (es1 @ PromptResolves j prompt # es2) init))"
proof -
  let ?st = "run es1 init"
  have t: "timOk ?st" using timOk_init by (rule timOk_run)
  have v: "invOk ?st" using invOk_init by (rule invOk_run)
  from superseded_after_later_call[OF t v armed waits later, of prompt]
  have s: "superseded d i p s position (promptResolves j prompt ?st)"
    and c: "d \<notin> fst ` set (timers (promptResolves j prompt ?st))" by simp_all
  from s have "superseded d i p s position (run es2 (promptResolves j prompt ?st))"
    by (rule superseded_run)
  then have f: "superseded d i p s position (run (es1 @ PromptResolves j prompt # es2) init)"
    by (simp add: run_append run_Cons)
  from c have "d \<notin> fst ` set (timers (run (es1 @ [PromptResolves j prompt]) init))"
    by (simp add: run_snoc)
  with f show ?thesis unfolding superseded_def by blast
qed

theorem superseded_debounce_never_settles_witness:
  "1 \<in> fst ` set (timers (run [Provide True ''const x = f'' testSuffix (0, 11),
        PromptResolves 0 (testPrompt ''const x = f''),
        Provide True ''const x = fu'' testSuffix (0, 12)] init))
   \<and> (0, AwaitDebounce 1 ''const x = f'' testSuffix (0, 11))
        \<in> set (invocations (run [Provide True ''const x = f'' testSuffix (0, 11),
              PromptResolves 0 (testPrompt ''const x = f''),
              Provide True ''const x = fu'' testSuffix (0, 12)] init))
   \<and> map_of (invocations (run [Provide True ''const x = f'' testSuffix (0, 11),
              PromptResolves 0 (testPrompt ''const x = f''),
              Provide True ''const x = fu'' testSuffix (0, 12)] init)) 2
        = Some (AwaitPrompt ''const x = fu'' testSuffix (0, 12))
   \<and> 1 \<notin> set (resolved (run ([Provide True ''const x = f'' testSuffix (0, 11),
              PromptResolves 0 (testPrompt ''const x = f''),
              Provide True ''const x = fu'' testSuffix (0, 12)]
            @ PromptResolves 2 (testPrompt ''const x = fu'')
            # [TimerFires 1, TimerFires 3, LlmSettles 4 (Returns ''nction test() {}'' testUsage), Dispose]) init))
   \<and> 0 \<notin> fst ` set (returned (run ([Provide True ''const x = f'' testSuffix (0, 11),
              PromptResolves 0 (testPrompt ''const x = f''),
              Provide True ''const x = fu'' testSuffix (0, 12)]
            @ PromptResolves 2 (testPrompt ''const x = fu'')
            # [TimerFires 1, TimerFires 3, LlmSettles 4 (Returns ''nction test() {}'' testUsage), Dispose]) init))
   \<and> resolved (run ([Provide True ''const x = f'' testSuffix (0, 11),
              PromptResolves 0 (testPrompt ''const x = f''),
              Provide True ''const x = fu'' testSuffix (0, 12)]
            @ PromptResolves 2 (testPrompt ''const x = fu'')
            # [TimerFires 1, TimerFires 3, LlmSettles 4 (Returns ''nction test() {}'' testUsage), Dispose]) init) = [3]
   \<and> map fst (returned (run ([Provide True ''const x = f'' testSuffix (0, 11),
              PromptResolves 0 (testPrompt ''const x = f''),
              Provide True ''const x = fu'' testSuffix (0, 12)]
            @ PromptResolves 2 (testPrompt ''const x = fu'')
            # [TimerFires 1, TimerFires 3, LlmSettles 4 (Returns ''nction test() {}'' testUsage), Dispose]) init)) = [2]"
proof -
  let ?es1 = "[Provide True ''const x = f'' testSuffix (0, 11),
        PromptResolves 0 (testPrompt ''const x = f''),
        Provide True ''const x = fu'' testSuffix (0, 12)]"
  let ?es2 = "[TimerFires 1, TimerFires 3, LlmSettles 4 (Returns ''nction test() {}'' testUsage), Dispose]"
  have a: "1 \<in> fst ` set (timers (run ?es1 init))" by code_simp
  have b: "(0, AwaitDebounce 1 ''const x = f'' testSuffix (0, 11)) \<in> set (invocations (run ?es1 init))"
    by code_simp
  have c: "map_of (invocations (run ?es1 init)) 2 = Some (AwaitPrompt ''const x = fu'' testSuffix (0, 12))"
    by code_simp
  have d: "resolved (run (?es1 @ PromptResolves 2 (testPrompt ''const x = fu'') # ?es2) init) = [3]"
    by code_simp
  have e: "map fst (returned (run (?es1 @ PromptResolves 2 (testPrompt ''const x = fu'') # ?es2) init)) = [2]"
    by code_simp
  from superseded_debounce_never_settles[OF a b c, of "testPrompt ''const x = fu''" ?es2] a b c d e
  show ?thesis by blast
qed

lemma isObsolete_iff:
  "isObsolete p s e \<longleftrightarrow>
     (suffix e \<noteq> s \<or> (\<not> (\<exists>r. p = prefix e @ r) \<and> \<not> (\<exists>r. prefix e = p @ r)))"
  by (simp add: isObsolete_def startsWith_iff)

lemma findReusable_None_key:
  "findReusablePendingRequest p s pendingMap = None \<Longrightarrow> map_of pendingMap (getCacheKey p s) = None"
  by (cases "map_of pendingMap (getCacheKey p s)") (simp_all add: findReusablePendingRequest_def)

lemma update_keys_subset:
  "fst ` set (AList.update k v al) \<subseteq> insert k (fst ` set al)"
  by (induction al) auto

lemma fetchAndCacheSuggestion_new:
  assumes none: "findReusablePendingRequest (prefix prompt) (suffix prompt) (pendingRequests st) = None"
  shows "fetchAndCacheSuggestion prompt d st = startNewRequest prompt d st"
  using none by (simp add: fetchAndCacheSuggestion_def)

lemma startNewRequest_trace:
  "trace (startNewRequest prompt d st) =
     trace st
     @ map (AbortSignal \<circ> abortController \<circ> snd)
         (filter (\<lambda>x. isObsolete (prefix prompt) (suffix prompt) (snd x)) (pendingRequests st))
     @ [CallGetFromLLM (nextId st) prompt]"
  by (simp add: startNewRequest_def createRequest_def Let_def cancelObsolete_trace cancelObsolete_frame)

lemma startNewRequest_aborted:
  "aborted (startNewRequest prompt d st) =
     aborted st \<union> set (map (abortController \<circ> snd)
         (filter (\<lambda>x. isObsolete (prefix prompt) (suffix prompt) (snd x)) (pendingRequests st)))"
  by (simp add: startNewRequest_def createRequest_def Let_def cancelObsolete_aborted)

lemma startNewRequest_pending:
  "pendingRequests (startNewRequest prompt d st) =
     AList.update (getCacheKey (prefix prompt) (suffix prompt))
       \<lparr>prefix = prefix prompt, suffix = suffix prompt, promise = nextId st, abortController = nextId st\<rparr>
       (filter (\<lambda>x. fst x \<notin> set (map fst (filter (\<lambda>y. isObsolete (prefix prompt) (suffix prompt) (snd y))
                                              (pendingRequests st))))
          (pendingRequests st))"
  by (simp add: startNewRequest_def createRequest_def Let_def cancelObsolete_pending cancelObsolete_frame)

text \<open>
  C3. A call of \<open>fetchAndCacheSuggestion\<close> finds no request to reuse. Then every entry
  of the map whose suffix differs from the incoming one, or whose prefix neither begins
  the incoming prefix nor is begun by it, has its controller aborted, and its key is no
  longer in the map; all these abort signals come before the call of \<open>getFromLLM\<close>
  for the new request, which is the last effect, and the new request is under way. In
  particular, after a trigger with prefix \<open>const x = f\<close> and a trigger with prefix
  \<open>const x = g\<close> and the same suffix there are two calls of \<open>getFromLLM\<close>, and the
  first request is aborted and out of the map.
\<close>

theorem obsolete_requests_cancelled_before_new_fetch:
  assumes none: "findReusablePendingRequest (prefix prompt) (suffix prompt) (pendingRequests st) = None"
  shows "(\<forall>(k, e) \<in> set (pendingRequests st).
            (suffix e \<noteq> suffix prompt
             \<or> (\<not> (\<exists>r. prefix prompt = prefix e @ r) \<and> \<not> (\<exists>r. prefix e = prefix prompt @ r)))
            \<longrightarrow> abortController e \<in> aborted (fetchAndCacheSuggestion prompt d st)
                \<and> k \<notin> fst ` set (pendingRequests (fetchAndCacheSuggestion prompt d st)))
         \<and> trace (fetchAndCacheSuggestion prompt d st) =
             trace st
             @ map (AbortSignal \<circ> abortController \<circ> snd)
                 (filter (\<lambda>x. isObsolete (prefix prompt) (suffix prompt) (snd x)) (pendingRequests st))
             @ [CallGetFromLLM (nextId st) prompt]
         \<and> inflight (fetchAndCacheSuggestion prompt d st) = inflight st @ [(nextId st, prompt)]
         \<and> fetchCalls (run (trigger 0 ''const x = f'' @ trigger 3 ''const x = g'') init)
             = [CallGetFromLLM 2 (testPrompt ''const x = f''), CallGetFromLLM 5 (testPrompt ''const x = g'')]
         \<and> aborted (run (trigger 0 ''const x = f'' @ trigger 3 ''const x = g'') init) = {2}
         \<and> map (promise \<circ> snd) (pendingRequests (run (trigger 0 ''const x = f'' @ trigger 3 ''const x = g'') init)) = [5]"
proof (intro conjI)
  note e = fetchAndCacheSuggestion_new[OF none, of d]
  let ?obs = "filter (\<lambda>x. isObsolete (prefix prompt) (suffix prompt) (snd x)) (pendingRequests st)"
  let ?K = "getCacheKey (prefix prompt) (suffix prompt)"
  show "\<forall>(k, e) \<in> set (pendingRequests st).
            (suffix e \<noteq> suffix prompt
             \<or> (\<not> (\<exists>r. prefix prompt = prefix e @ r) \<and> \<not> (\<exists>r. prefix e = prefix prompt @ r)))
            \<longrightarrow> abortController e \<in> aborted (fetchAndCacheSuggestion prompt d st)
                \<and> k \<notin> fst ` set (pendingRequests (fetchAndCacheSuggestion prompt d st))"
  proof (clarify)
    fix k pe
    assume m: "(k, pe) \<in> set (pendingRequests st)"
      and o: "suffix pe \<noteq> suffix prompt
             \<or> (\<not> (\<exists>r. prefix prompt = prefix pe @ r) \<and> \<not> (\<exists>r. prefix pe = prefix prompt @ r))"
    from o have ob: "isObsolete (prefix prompt) (suffix prompt) pe" by (simp only: isObsolete_iff)
    with m have mo: "(k, pe) \<in> set ?obs" by simp
    then have a: "abortController pe \<in> aborted (startNewRequest prompt d st)"
      unfolding startNewRequest_aborted by force
    from mo have ko: "k \<in> set (map fst ?obs)" by force
    from m have "map_of (pendingRequests st) k \<noteq> None"
      by (metis map_of_eq_None_iff fst_conv imageI)
    with findReusable_None_key[OF none] have kK: "k \<noteq> ?K" by auto
    have "fst ` set (pendingRequests (startNewRequest prompt d st))
            \<subseteq> insert ?K (fst ` set (filter (\<lambda>x. fst x \<notin> set (map fst ?obs)) (pendingRequests st)))"
      unfolding startNewRequest_pending by (rule update_keys_subset)
    moreover have "k \<notin> fst ` set (filter (\<lambda>x. fst x \<notin> set (map fst ?obs)) (pendingRequests st))"
    proof
      assume "k \<in> fst ` set (filter (\<lambda>x. fst x \<notin> set (map fst ?obs)) (pendingRequests st))"
      then obtain x where "x \<in> set (pendingRequests st)" "fst x \<notin> set (map fst ?obs)" "k = fst x"
        by auto
      with ko show False by simp
    qed
    with kK have "k \<notin> insert ?K (fst ` set (filter (\<lambda>x. fst x \<notin> set (map fst ?obs)) (pendingRequests st)))"
      by simp
    ultimately have "k \<notin> fst ` set (pendingRequests (startNewRequest prompt d st))" by blast
    with a show "abortController pe \<in> aborted (fetchAndCacheSuggestion prompt d st)
                \<and> k \<notin> fst ` set (pendingRequests (fetchAndCacheSuggestion prompt d st))"
      by (simp only: e) simp
  qed
  show "trace (fetchAndCacheSuggestion prompt d st) =
             trace st @ map (AbortSignal \<circ> abortController \<circ> snd) ?obs @ [CallGetFromLLM (nextId st) prompt]"
    unfolding e by (rule startNewRequest_trace)
  show "inflight (fetchAndCacheSuggestion prompt d st) = inflight st @ [(nextId st, prompt)]"
    unfolding e by (simp add: startNewRequest_frame)
  show "fetchCalls (run (trigger 0 ''const x = f'' @ trigger 3 ''const x = g'') init)
             = [CallGetFromLLM 2 (testPrompt ''const x = f''), CallGetFromLLM 5 (testPrompt ''const x = g'')]"
    by code_simp
  show "aborted (run (trigger 0 ''const x = f'' @ trigger 3 ''const x = g'') init) = {2}"
    by code_simp
  show "map (promise \<circ> snd) (pendingRequests (run (trigger 0 ''const x = f'' @ trigger 3 ''const x = g'') init)) = [5]"
    by code_simp
qed

theorem obsolete_requests_cancelled_before_new_fetch_witness:
  "findReusablePendingRequest (prefix (testPrompt ''const x = g'')) (suffix (testPrompt ''const x = g''))
      (pendingRequests (run (trigger 0 ''const x = f'') init)) = None
   \<and> pendingRequests (run (trigger 0 ''const x = f'') init)
        = [(getCacheKey ''const x = f'' testSuffix,
            \<lparr>prefix = ''const x = f'', suffix = testSuffix, promise = 2, abortController = 2\<rparr>)]
   \<and> 2 \<in> aborted (fetchAndCacheSuggestion (testPrompt ''const x = g'') 4 (run (trigger 0 ''const x = f'') init))
   \<and> getCacheKey ''const x = f'' testSuffix
        \<notin> fst ` set (pendingRequests
              (fetchAndCacheSuggestion (testPrompt ''const x = g'') 4 (run (trigger 0 ''const x = f'') init)))
   \<and> trace (fetchAndCacheSuggestion (testPrompt ''const x = g'') 4 (run (trigger 0 ''const x = f'') init))
        = [CallGetFromLLM 2 (testPrompt ''const x = f''), AbortSignal 2,
           CallGetFromLLM 3 (testPrompt ''const x = g'')]"
proof -
  let ?st = "run (trigger 0 ''const x = f'') init"
  let ?g = "testPrompt ''const x = g''"
  let ?e = "\<lparr>prefix = ''const x = f'', suffix = testSuffix, promise = 2, abortController = 2\<rparr>"
  have none: "findReusablePendingRequest (prefix ?g) (suffix ?g) (pendingRequests ?st) = None"
    by code_simp
  have reg: "pendingRequests ?st = [(getCacheKey ''const x = f'' testSuffix, ?e)]" by code_simp
  have tr: "trace ?st = [CallGetFromLLM 2 (testPrompt ''const x = f'')]" by code_simp
  have nid: "nextId ?st = 3" by code_simp
  have "isObsolete (prefix ?g) (suffix ?g) ?e" by code_simp
  then have ob: "suffix ?e \<noteq> suffix ?g
      \<or> (\<not> (\<exists>r. prefix ?g = prefix ?e @ r) \<and> \<not> (\<exists>r. prefix ?e = prefix ?g @ r))"
    by (simp only: isObsolete_iff)
  have f: "filter (\<lambda>x. isObsolete (prefix ?g) (suffix ?g) (snd x)) (pendingRequests ?st)
             = [(getCacheKey ''const x = f'' testSuffix, ?e)]"
    unfolding reg by code_simp
  note th = obsolete_requests_cancelled_before_new_fetch[OF none, of 4]
  from th have b: "\<forall>(k, e) \<in> set (pendingRequests ?st).
            (suffix e \<noteq> suffix ?g
             \<or> (\<not> (\<exists>r. prefix ?g = prefix e @ r) \<and> \<not> (\<exists>r. prefix e = prefix ?g @ r)))
            \<longrightarrow> abortController e \<in> aborted (fetchAndCacheSuggestion ?g 4 ?st)
                \<and> k \<notin> fst ` set (pendingRequests (fetchAndCacheSuggestion ?g 4 ?st))"
    by (rule conjunct1)
  have "(getCacheKey ''const x = f'' testSuffix, ?e) \<in> set (pendingRequests ?st)" unfolding reg by simp
  from bspec[OF b this] ob
  have c: "2 \<in> aborted (fetchAndCacheSuggestion ?g 4 ?st)"
     "getCacheKey ''const x = f'' testSuffix \<notin> fst ` set (pendingRequests (fetchAndCacheSuggestion ?g 4 ?st))"
    by simp_all
  from th have "trace (fetchAndCacheSuggestion ?g 4 ?st) =
             trace ?st
             @ map (AbortSignal \<circ> abortController \<circ> snd)
                 (filter (\<lambda>x. isObsolete (prefix ?g) (suffix ?g) (snd x)) (pendingRequests ?st))
             @ [CallGetFromLLM (nextId ?st) ?g]"
    by blast
  then have d: "trace (fetchAndCacheSuggestion ?g 4 ?st)
        = [CallGetFromLLM 2 (testPrompt ''const x = f''), AbortSignal 2, CallGetFromLLM 3 ?g]"
    unfolding f tr nid by simp
  from none reg c d show ?thesis by blast
qed


lemma scanPending_Some:
  "scanPending p s pendingMap = Some e \<Longrightarrow>
     \<exists>earlier k later. pendingMap = earlier @ (k, e) # later
        \<and> suffix e = s \<and> startsWith p (prefix e)
        \<and> (\<forall>x\<in>set earlier. \<not> (suffix (snd x) = s \<and> startsWith p (prefix (snd x))))"
proof (induction pendingMap)
  case Nil
  then show ?case by simp
next
  case (Cons a pendingMap)
  obtain k' e' where a: "a = (k', e')" by (cases a)
  show ?case
  proof (cases "suffix e' = s \<and> startsWith p (prefix e')")
    case True
    with Cons.prems a have "e = e'" by simp
    with True a show ?thesis by (intro exI[of _ "[]"] exI[of _ k'] exI[of _ pendingMap]) simp
  next
    case False
    with Cons.prems a have "scanPending p s pendingMap = Some e" by auto
    from Cons.IH[OF this] obtain earlier k later where
      h: "pendingMap = earlier @ (k, e) # later" "suffix e = s" "startsWith p (prefix e)"
         "\<forall>x\<in>set earlier. \<not> (suffix (snd x) = s \<and> startsWith p (prefix (snd x)))" by blast
    with False a show ?thesis by (intro exI[of _ "a # earlier"] exI[of _ k] exI[of _ later]) simp
  qed
qed



section \<open>Two triggers with the same prefix and suffix\<close>

























text \<open>
  Between the two triggers no request may end. Here a request for the same prefix and
  suffix as a newer one ends after it was aborted: its \<open>finally\<close> block deletes the key,
  which is the newer request's by then, and a fourth trigger, identical to the third,
  calls \<open>getFromLLM\<close> again although the third request is still under way.
\<close>

lemma stale_finally_defeats_reuse:
  "fetchCalls (run (trigger 0 ''const x = f'' @ trigger 3 ''const x = g'' @ trigger 6 ''const x = f''
                    @ [LlmSettles 2 (Returns ''unction'' testUsage)] @ trigger 9 ''const x = f'') init)
     = [CallGetFromLLM 2 (testPrompt ''const x = f''), CallGetFromLLM 5 (testPrompt ''const x = g''),
        CallGetFromLLM 8 (testPrompt ''const x = f''), CallGetFromLLM 11 (testPrompt ''const x = f'')]
   \<and> map fst (inflight (run (trigger 0 ''const x = f'' @ trigger 3 ''const x = g'' @ trigger 6 ''const x = f''
                    @ [LlmSettles 2 (Returns ''unction'' testUsage)]) init)) = [5, 8]
   \<and> 8 \<notin> aborted (run (trigger 0 ''const x = f'' @ trigger 3 ''const x = g'' @ trigger 6 ''const x = f''
                    @ [LlmSettles 2 (Returns ''unction'' testUsage)]) init)"
  by code_simp

lemma cacheKey_longer_prefix:
  assumes k: "getCacheKey p1 s1 = getCacheKey p2 s2" and l: "length p2 < length p1"
  shows "startsWith p1 p2"
proof -
  from k have "take (length p2) (p1 @ ''|||'' @ s1) = take (length p2) (p2 @ ''|||'' @ s2)"
    by (simp only: getCacheKey_def)
  with l show ?thesis by (simp add: startsWith_def)
qed

lemma findReusable_relation:
  assumes keyed: "\<forall>(k, e) \<in> set pendingMap. k = getCacheKey (prefix e) (suffix e)"
    and found: "findReusablePendingRequest p s pendingMap = Some r"
  shows "getCacheKey p s = getCacheKey (prefix r) (suffix r) \<or> (suffix r = s \<and> startsWith p (prefix r))"
proof (cases "map_of pendingMap (getCacheKey p s)")
  case None
  with found have "scanPending p s pendingMap = Some r" by (simp add: findReusablePendingRequest_def)
  from scanPending_Some[OF this] show ?thesis by blast
next
  case (Some exact)
  with found have "exact = r" by (simp add: findReusablePendingRequest_def)
  with Some have "(getCacheKey p s, r) \<in> set pendingMap" by (simp add: map_of_SomeD)
  with keyed show ?thesis by blast
qed

lemma reused_longer_prefix:
  assumes keyed: "\<forall>(k, e) \<in> set pendingMap. k = getCacheKey (prefix e) (suffix e)"
    and found: "findReusablePendingRequest p s pendingMap = Some r"
    and l: "length (prefix r) < length p"
  shows "startsWith p (prefix r) \<and> p \<noteq> prefix r"
  using findReusable_relation[OF keyed found] l cacheKey_longer_prefix[of p s "prefix r" "suffix r"]
  by auto

lemma stored_in_history: "f \<in> set (suggestionsHistory (finish d (updateSuggestions f st)))"
  by (simp add: finish_def updateSuggestions_def pushSuggestion_mem)

lemma settleRequest_Fulfilled:
  "fst (settleRequest n prompt outcome st) = Fulfilled result \<Longrightarrow>
     n \<notin> aborted st \<and> n \<notin> aborted (snd (settleRequest n prompt outcome st))
     \<and> (\<exists>t usageInfo. outcome = Returns t usageInfo \<and> result = getFromLLM_result prompt t usageInfo)
     \<and> prefix (suggestion result) = prefix prompt \<and> suffix (suggestion result) = suffix prompt"
  by (cases outcome)
     (auto simp: settleRequest_def Let_def cleanupPending_def updateSuggestions_def getFromLLM_result_def
        split: if_splits)

text \<open>
  C2. A call has found a request to reuse, in a map whose entries stand under their own
  keys; the promise of the request is fulfilled with the request's own result, of text
  \<open>T\<close>, and the request was not aborted. If the incoming prefix is longer than the
  request's prefix and \<open>T\<close> is what was typed since followed by a rest, the call stores
  the incoming prefix and suffix with that rest. If the incoming prefix is longer and
  \<open>T\<close> does not begin with what was typed, it stores the result as it is, under the
  request's prefix and suffix. If the two prefixes are equal it stores the result as it
  is. What a call stores is in the history afterwards. With \<open>unction test() {}\<close>
  returned for the prefix \<open>const x = f\<close> and a second trigger at \<open>const x = fun\<close>, the
  history ends with the text \<open>ction test() {}\<close>, and this is what the second trigger
  returns.
\<close>

theorem reused_result_is_adjusted:
  assumes keyed: "\<forall>(k, e) \<in> set pendingMap. k = getCacheKey (prefix e) (suffix e)"
    and found: "findReusablePendingRequest (prefix prompt) (suffix prompt) pendingMap = Some reusable"
    and own: "prefix (suggestion result) = prefix reusable \<and> suffix (suggestion result) = suffix reusable"
    and live: "abortController reusable \<notin> aborted st"
  shows "(length (prefix reusable) < length (prefix prompt)
            \<and> text (suggestion result) = drop (length (prefix reusable)) (prefix prompt) @ rest \<longrightarrow>
          resumeWaiter (Fulfilled result) (Reuser reusable prompt d) st
            = finish d (updateSuggestions
                          \<lparr>prefix = prefix prompt, suffix = suffix prompt, text = rest\<rparr> st))
         \<and> (length (prefix reusable) < length (prefix prompt)
            \<and> \<not> (\<exists>r. text (suggestion result) = drop (length (prefix reusable)) (prefix prompt) @ r) \<longrightarrow>
          resumeWaiter (Fulfilled result) (Reuser reusable prompt d) st
            = finish d (updateSuggestions
                          \<lparr>prefix = prefix reusable, suffix = suffix reusable,
                           text = text (suggestion result)\<rparr> st))
         \<and> (prefix prompt = prefix reusable \<longrightarrow>
          resumeWaiter (Fulfilled result) (Reuser reusable prompt d) st
            = finish d (updateSuggestions (suggestion result) st))
         \<and> f \<in> set (suggestionsHistory (finish d (updateSuggestions f st)))
         \<and> suggestionsHistory (run (trigger 0 ''const x = f'' @ trigger 3 ''const x = fun''
                @ [LlmSettles 2 (Returns ''unction test() {}'' testUsage)]) init)
             = [\<lparr>prefix = ''const x = f'', suffix = testSuffix, text = ''unction test() {}''\<rparr>,
                \<lparr>prefix = ''const x = fun'', suffix = testSuffix, text = ''ction test() {}''\<rparr>]
         \<and> returned (run (trigger 0 ''const x = f'' @ trigger 3 ''const x = fun''
                @ [LlmSettles 2 (Returns ''unction test() {}'' testUsage)]) init)
             = [(0, Inr [\<lparr>insertText = ''unction test() {}'', range = ((0, 11), (0, 11))\<rparr>]),
                (3, Inr [\<lparr>insertText = ''ction test() {}'', range = ((0, 13), (0, 13))\<rparr>])]"
proof (intro conjI impI)
  have asis: "suggestion result
      = \<lparr>prefix = prefix reusable, suffix = suffix reusable, text = text (suggestion result)\<rparr>"
    using own by simp
  {
    assume a: "length (prefix reusable) < length (prefix prompt)
            \<and> text (suggestion result) = drop (length (prefix reusable)) (prefix prompt) @ rest"
    from reused_longer_prefix[OF keyed found] a
    have sw: "startsWith (prefix prompt) (prefix reusable)" "prefix prompt \<noteq> prefix reusable" by simp_all
    from a have t: "startsWith (text (suggestion result)) (substring (prefix prompt) (length (prefix reusable)))"
      by (simp add: startsWith_def substring_def)
    from a have r: "substring (text (suggestion result))
                      (length (substring (prefix prompt) (length (prefix reusable)))) = rest"
      by (simp add: substring_def)
    show "resumeWaiter (Fulfilled result) (Reuser reusable prompt d) st
            = finish d (updateSuggestions
                          \<lparr>prefix = prefix prompt, suffix = suffix prompt, text = rest\<rparr> st)"
      using live sw t by (simp add: r)
  }
  {
    assume a: "length (prefix reusable) < length (prefix prompt)
            \<and> \<not> (\<exists>r. text (suggestion result) = drop (length (prefix reusable)) (prefix prompt) @ r)"
    then have "\<not> startsWith (text (suggestion result)) (substring (prefix prompt) (length (prefix reusable)))"
      by (simp add: startsWith_iff substring_def)
    then have "resumeWaiter (Fulfilled result) (Reuser reusable prompt d) st
            = finish d (updateSuggestions (suggestion result) st)"
      using live by simp
    then show "resumeWaiter (Fulfilled result) (Reuser reusable prompt d) st
            = finish d (updateSuggestions
                          \<lparr>prefix = prefix reusable, suffix = suffix reusable,
                           text = text (suggestion result)\<rparr> st)"
      using asis by simp
  }
  {
    assume "prefix prompt = prefix reusable"
    then show "resumeWaiter (Fulfilled result) (Reuser reusable prompt d) st
            = finish d (updateSuggestions (suggestion result) st)"
      using live by simp
  }
  show "f \<in> set (suggestionsHistory (finish d (updateSuggestions f st)))"
    by (rule stored_in_history)
  show "suggestionsHistory (run (trigger 0 ''const x = f'' @ trigger 3 ''const x = fun''
                @ [LlmSettles 2 (Returns ''unction test() {}'' testUsage)]) init)
             = [\<lparr>prefix = ''const x = f'', suffix = testSuffix, text = ''unction test() {}''\<rparr>,
                \<lparr>prefix = ''const x = fun'', suffix = testSuffix, text = ''ction test() {}''\<rparr>]"
    by code_simp
  show "returned (run (trigger 0 ''const x = f'' @ trigger 3 ''const x = fun''
                @ [LlmSettles 2 (Returns ''unction test() {}'' testUsage)]) init)
             = [(0, Inr [\<lparr>insertText = ''unction test() {}'', range = ((0, 11), (0, 11))\<rparr>]),
                (3, Inr [\<lparr>insertText = ''ction test() {}'', range = ((0, 13), (0, 13))\<rparr>])]"
    by code_simp
qed

theorem reused_result_is_adjusted_witness:
  "findReusablePendingRequest (prefix (testPrompt ''const x = fun'')) (suffix (testPrompt ''const x = fun''))
      (pendingRequests (run (trigger 0 ''const x = f'') init))
     = Some \<lparr>prefix = ''const x = f'', suffix = testSuffix, promise = 2, abortController = 2\<rparr>
   \<and> 2 \<notin> aborted (run (trigger 0 ''const x = f'') init)
   \<and> resumeWaiter (Fulfilled (getFromLLM_result (testPrompt ''const x = f'') ''unction test() {}'' testUsage))
        (Reuser \<lparr>prefix = ''const x = f'', suffix = testSuffix, promise = 2, abortController = 2\<rparr>
           (testPrompt ''const x = fun'') 4)
        (run (trigger 0 ''const x = f'') init)
      = finish 4 (updateSuggestions
          \<lparr>prefix = ''const x = fun'', suffix = testSuffix, text = ''ction test() {}''\<rparr>
          (run (trigger 0 ''const x = f'') init))
   \<and> resumeWaiter (Fulfilled (getFromLLM_result (testPrompt ''const x = f'') ''let z'' testUsage))
        (Reuser \<lparr>prefix = ''const x = f'', suffix = testSuffix, promise = 2, abortController = 2\<rparr>
           (testPrompt ''const x = fun'') 4)
        (run (trigger 0 ''const x = f'') init)
      = finish 4 (updateSuggestions
          \<lparr>prefix = ''const x = f'', suffix = testSuffix, text = ''let z''\<rparr>
          (run (trigger 0 ''const x = f'') init))
   \<and> resumeWaiter (Fulfilled (getFromLLM_result (testPrompt ''const x = f'') ''unction test() {}'' testUsage))
        (Reuser \<lparr>prefix = ''const x = f'', suffix = testSuffix, promise = 2, abortController = 2\<rparr>
           (testPrompt ''const x = f'') 4)
        (run (trigger 0 ''const x = f'') init)
      = finish 4 (updateSuggestions
          \<lparr>prefix = ''const x = f'', suffix = testSuffix, text = ''unction test() {}''\<rparr>
          (run (trigger 0 ''const x = f'') init))"
proof -
  let ?st = "run (trigger 0 ''const x = f'') init"
  let ?r = "\<lparr>prefix = ''const x = f'', suffix = testSuffix, promise = 2, abortController = 2\<rparr>"
  let ?ahead = "testPrompt ''const x = fun''"
  let ?f = "testPrompt ''const x = f''"
  let ?res1 = "getFromLLM_result ?f ''unction test() {}'' testUsage"
  let ?res2 = "getFromLLM_result ?f ''let z'' testUsage"
  have reg: "pendingRequests ?st = [(getCacheKey ''const x = f'' testSuffix, ?r)]" by code_simp
  have keyed: "\<forall>(k, e) \<in> set (pendingRequests ?st). k = getCacheKey (prefix e) (suffix e)"
    unfolding reg by simp
  have found1: "findReusablePendingRequest (prefix ?ahead) (suffix ?ahead) (pendingRequests ?st) = Some ?r"
    by code_simp
  have found2: "findReusablePendingRequest (prefix ?f) (suffix ?f) (pendingRequests ?st) = Some ?r"
    by code_simp
  have own1: "prefix (suggestion ?res1) = prefix ?r \<and> suffix (suggestion ?res1) = suffix ?r"
    by (simp add: getFromLLM_result_def testPrompt_def)
  have own2: "prefix (suggestion ?res2) = prefix ?r \<and> suffix (suggestion ?res2) = suffix ?r"
    by (simp add: getFromLLM_result_def testPrompt_def)
  have live: "abortController ?r \<notin> aborted ?st" by code_simp
  then have live': "2 \<notin> aborted ?st" by simp
  have h1: "length (prefix ?r) < length (prefix ?ahead)
            \<and> text (suggestion ?res1) = drop (length (prefix ?r)) (prefix ?ahead) @ ''ction test() {}''"
    by (simp add: getFromLLM_result_def testPrompt_def)
  have h2: "length (prefix ?r) < length (prefix ?ahead)
            \<and> \<not> (\<exists>r. text (suggestion ?res2) = drop (length (prefix ?r)) (prefix ?ahead) @ r)"
    by (simp add: getFromLLM_result_def testPrompt_def)
  have h3: "prefix ?f = prefix ?r" by (simp add: testPrompt_def)
  from reused_result_is_adjusted[OF keyed found1 own1 live, of "''ction test() {}''" 4, THEN conjunct1, THEN mp, OF h1]
  have a: "resumeWaiter (Fulfilled ?res1) (Reuser ?r ?ahead 4) ?st
      = finish 4 (updateSuggestions \<lparr>prefix = ''const x = fun'', suffix = testSuffix, text = ''ction test() {}''\<rparr> ?st)"
    by (simp add: testPrompt_def)
  from reused_result_is_adjusted[OF keyed found1 own2 live, of "''''" 4, THEN conjunct2, THEN conjunct1, THEN mp, OF h2]
  have b: "resumeWaiter (Fulfilled ?res2) (Reuser ?r ?ahead 4) ?st
      = finish 4 (updateSuggestions \<lparr>prefix = ''const x = f'', suffix = testSuffix, text = ''let z''\<rparr> ?st)"
    by (simp add: getFromLLM_result_def)
  from reused_result_is_adjusted[OF keyed found2 own1 live, of "''''" 4, THEN conjunct2, THEN conjunct2, THEN conjunct1, THEN mp, OF h3]
  have c: "resumeWaiter (Fulfilled ?res1) (Reuser ?r ?f 4) ?st
      = finish 4 (updateSuggestions \<lparr>prefix = ''const x = f'', suffix = testSuffix, text = ''unction test() {}''\<rparr> ?st)"
    by (simp add: getFromLLM_result_def testPrompt_def)
  from found1 live' a b c show ?thesis by blast
qed

lemma settleRequest_Returns_history:
  "n \<notin> aborted st \<Longrightarrow>
   suggestionsHistory (snd (settleRequest n prompt (Returns t usageInfo) st))
     = pushSuggestion \<lparr>prefix = prefix prompt, suffix = suffix prompt, text = t\<rparr> (suggestionsHistory st)"
  by (simp add: settleRequest_def Let_def cleanupPending_def updateSuggestions_def getFromLLM_result_def)

lemma pushSuggestion_last: "f \<notin> set h \<Longrightarrow> \<exists>older. pushSuggestion f h = older @ [f]"
  by (cases h) (auto simp: pushSuggestion_def isDuplicate_iff MAX_SUGGESTIONS_HISTORY_def)

lemma findMatchingSuggestion_exact_in_history:
  assumes "\<lparr>prefix = p, suffix = s, text = t\<rparr> \<in> set h"
  shows "findMatchingSuggestion p s h \<noteq> None"
proof
  assume "findMatchingSuggestion p s h = None"
  then have "\<forall>e\<in>set (rev h). \<not> exactHit p s e \<and> \<not> typedAheadHit p s e"
    by (simp only: findMatchingSuggestion_def scanSuggestions_None)
  with assms have "\<not> exactHit p s \<lparr>prefix = p, suffix = s, text = t\<rparr>" by simp
  then show False by (simp add: exactHit_def)
qed

lemma findMatchingSuggestion_most_recent_hit:
  assumes h: "h = older @ \<lparr>prefix = p, suffix = s, text = t\<rparr> # newer"
    and n: "\<forall>e\<in>set newer. \<not> exactHit p s e \<and> \<not> typedAheadHit p s e"
  shows "findMatchingSuggestion p s h = Some t"
proof -
  have "rev h = rev newer @ \<lparr>prefix = p, suffix = s, text = t\<rparr> # rev older" using h by simp
  moreover from n have "\<forall>e\<in>set (rev newer). \<not> exactHit p s e \<and> \<not> typedAheadHit p s e" by simp
  ultimately have "scanSuggestions p s (rev h)
      = scanSuggestions p s (\<lparr>prefix = p, suffix = s, text = t\<rparr> # rev older)"
    by (simp only: scanSuggestions_skip)
  then show ?thesis by (simp add: findMatchingSuggestion_def)
qed

lemma provide_fast_path:
  assumes "findMatchingSuggestion p s (suggestionsHistory st) = Some t"
  shows "provide True p s position st
           = st\<lparr>nextId := Suc (nextId st),
                returned := returned st @ [(nextId st, Inr (stringToInlineCompletions t position))]\<rparr>"
  using assms by (simp add: provide_def Let_def)

text \<open>
  C8, as the code has it. A request that was not aborted and whose \<open>getFromLLM\<close> returns
  the empty text leaves the empty suggestion for its prefix and suffix in the history,
  as the last entry when it was not there before. In any state whose history holds that
  entry, a trigger with the same prefix and suffix returns at once from the fast path:
  no call is suspended, no timer is armed, no request is started and no effect happens.
  What it returns is the empty list when no entry after the empty one in the history hits.
\<close>

theorem empty_result_is_cached:
  assumes live: "n \<notin> aborted st"
  shows "\<lparr>prefix = prefix prompt, suffix = suffix prompt, text = ''''\<rparr>
           \<in> set (suggestionsHistory (snd (settleRequest n prompt (Returns '''' usageInfo) st)))
         \<and> (\<lparr>prefix = prefix prompt, suffix = suffix prompt, text = ''''\<rparr> \<notin> set (suggestionsHistory st) \<longrightarrow>
              (\<exists>older. suggestionsHistory (snd (settleRequest n prompt (Returns '''' usageInfo) st))
                 = older @ [\<lparr>prefix = prefix prompt, suffix = suffix prompt, text = ''''\<rparr>]))
         \<and> (\<lparr>prefix = p, suffix = s, text = ''''\<rparr> \<in> set (suggestionsHistory st2) \<longrightarrow>
              invocations (provide True p s position st2) = invocations st2
              \<and> timers (provide True p s position st2) = timers st2
              \<and> inflight (provide True p s position st2) = inflight st2
              \<and> trace (provide True p s position st2) = trace st2
              \<and> (\<exists>items. returned (provide True p s position st2)
                    = returned st2 @ [(nextId st2, Inr items)]))
         \<and> (suggestionsHistory st2 = older @ \<lparr>prefix = p, suffix = s, text = ''''\<rparr> # newer
              \<and> (\<forall>e\<in>set newer. \<not> exactHit p s e \<and> \<not> typedAheadHit p s e) \<longrightarrow>
              returned (provide True p s position st2) = returned st2 @ [(nextId st2, Inr [])])"
proof (intro conjI impI)
  let ?e = "\<lparr>prefix = prefix prompt, suffix = suffix prompt, text = ''''\<rparr>"
  note h = settleRequest_Returns_history[OF live, of prompt "''''" usageInfo]
  show "?e \<in> set (suggestionsHistory (snd (settleRequest n prompt (Returns '''' usageInfo) st)))"
    unfolding h by (rule pushSuggestion_mem)
  {
    assume "?e \<notin> set (suggestionsHistory st)"
    then show "\<exists>older. suggestionsHistory (snd (settleRequest n prompt (Returns '''' usageInfo) st)) = older @ [?e]"
      unfolding h by (rule pushSuggestion_last)
  }
  {
    assume "\<lparr>prefix = p, suffix = s, text = ''''\<rparr> \<in> set (suggestionsHistory st2)"
    then have "findMatchingSuggestion p s (suggestionsHistory st2) \<noteq> None"
      by (rule findMatchingSuggestion_exact_in_history)
    then obtain t where "findMatchingSuggestion p s (suggestionsHistory st2) = Some t" by blast
    note e = provide_fast_path[OF this, of position]
    show "invocations (provide True p s position st2) = invocations st2" unfolding e by simp
    show "timers (provide True p s position st2) = timers st2" unfolding e by simp
    show "inflight (provide True p s position st2) = inflight st2" unfolding e by simp
    show "trace (provide True p s position st2) = trace st2" unfolding e by simp
    show "\<exists>items. returned (provide True p s position st2) = returned st2 @ [(nextId st2, Inr items)]"
      unfolding e by simp
  }
  {
    assume a: "suggestionsHistory st2 = older @ \<lparr>prefix = p, suffix = s, text = ''''\<rparr> # newer
              \<and> (\<forall>e\<in>set newer. \<not> exactHit p s e \<and> \<not> typedAheadHit p s e)"
    then have "findMatchingSuggestion p s (suggestionsHistory st2) = Some ''''"
      by (intro findMatchingSuggestion_most_recent_hit[of _ older p s "''''" newer]) simp_all
    from provide_fast_path[OF this, of position]
    show "returned (provide True p s position st2) = returned st2 @ [(nextId st2, Inr [])]"
      by (simp add: stringToInlineCompletions_def)
  }
qed

text \<open>
  The claim as stated fails: the request for \<open>const x = fu\<close> returns the empty text, the
  request for \<open>const x = f\<close> returns after it, and a later trigger at \<open>const x = fu\<close>
  returns a completion that is not empty.
\<close>

theorem empty_result_is_cached_counterexample:
  "suggestionsHistory (run (trigger 0 ''const x = fu'' @ trigger 3 ''const x = f''
       @ [LlmSettles 2 (Returns '''' testUsage),
          LlmSettles 5 (Returns ''unction test() {}'' testUsage)]) init)
     = [\<lparr>prefix = ''const x = fu'', suffix = testSuffix, text = ''''\<rparr>,
        \<lparr>prefix = ''const x = f'', suffix = testSuffix, text = ''unction test() {}''\<rparr>]
   \<and> returned (step (Provide True ''const x = fu'' testSuffix (0, 12))
        (run (trigger 0 ''const x = fu'' @ trigger 3 ''const x = f''
           @ [LlmSettles 2 (Returns '''' testUsage),
              LlmSettles 5 (Returns ''unction test() {}'' testUsage)]) init))
     = [(0, Inr []),
        (3, Inr [\<lparr>insertText = ''unction test() {}'', range = ((0, 11), (0, 11))\<rparr>]),
        (6, Inr [\<lparr>insertText = ''nction test() {}'', range = ((0, 12), (0, 12))\<rparr>])]"
  by code_simp

theorem empty_result_is_cached_witness:
  "2 \<notin> aborted (run (trigger 0 ''const x = fu'') init)
   \<and> \<lparr>prefix = ''const x = fu'', suffix = testSuffix, text = ''''\<rparr>
        \<in> set (suggestionsHistory
             (snd (settleRequest 2 (testPrompt ''const x = fu'') (Returns '''' testUsage)
                     (run (trigger 0 ''const x = fu'') init))))
   \<and> suggestionsHistory (run (trigger 0 ''const x = fu'' @ [LlmSettles 2 (Returns '''' testUsage)]) init)
        = [] @ \<lparr>prefix = ''const x = fu'', suffix = testSuffix, text = ''''\<rparr> # []
   \<and> trace (provide True ''const x = fu'' testSuffix (0, 12)
               (run (trigger 0 ''const x = fu'' @ [LlmSettles 2 (Returns '''' testUsage)]) init))
        = trace (run (trigger 0 ''const x = fu'' @ [LlmSettles 2 (Returns '''' testUsage)]) init)
   \<and> returned (provide True ''const x = fu'' testSuffix (0, 12)
               (run (trigger 0 ''const x = fu'' @ [LlmSettles 2 (Returns '''' testUsage)]) init))
        = [(0, Inr []), (3, Inr [])]"
proof -
  let ?st = "run (trigger 0 ''const x = fu'') init"
  let ?st2 = "run (trigger 0 ''const x = fu'' @ [LlmSettles 2 (Returns '''' testUsage)]) init"
  let ?e = "\<lparr>prefix = ''const x = fu'', suffix = testSuffix, text = ''''\<rparr>"
  have live: "2 \<notin> aborted ?st" by code_simp
  have h2: "suggestionsHistory ?st2 = [] @ ?e # []" by code_simp
  then have mem: "?e \<in> set (suggestionsHistory ?st2)" by simp
  have nw: "suggestionsHistory ?st2 = [] @ ?e # []
            \<and> (\<forall>e\<in>set []. \<not> exactHit ''const x = fu'' testSuffix e \<and> \<not> typedAheadHit ''const x = fu'' testSuffix e)"
    using h2 by simp
  have r2: "returned ?st2 = [(0, Inr [])]" by code_simp
  have n2: "nextId ?st2 = 3" by code_simp
  note th = empty_result_is_cached[OF live, of "testPrompt ''const x = fu''" testUsage
      "''const x = fu''" testSuffix ?st2 "(0, 12)" "[]" "[]"]
  from th[THEN conjunct1]
  have a: "?e \<in> set (suggestionsHistory (snd (settleRequest 2 (testPrompt ''const x = fu'') (Returns '''' testUsage) ?st)))"
    by (simp add: testPrompt_def)
  from th[THEN conjunct2, THEN conjunct2, THEN conjunct1, THEN mp, OF mem]
  have b: "trace (provide True ''const x = fu'' testSuffix (0, 12) ?st2) = trace ?st2" by blast
  from th[THEN conjunct2, THEN conjunct2, THEN conjunct2, THEN mp, OF nw]
  have c: "returned (provide True ''const x = fu'' testSuffix (0, 12) ?st2) = [(0, Inr []), (3, Inr [])]"
    by (simp only: r2 n2) simp
  from live a h2 b c show ?thesis by blast
qed

text \<open>
  C7. The request for \<open>const x = f\<close> is under way and a second call, at \<open>const x = fu\<close>,
  waits for it. A trigger at \<open>const x = g\<close> aborts the request. When \<open>getFromLLM\<close> of the
  aborted request returns, the request's body throws an \<open>Error\<close> whose name is \<open>Error\<close>:
  the call that created the request logs it with \<open>console.error\<close>, and the call that
  reused it logs it with \<open>console.warn\<close>, aborts the request for \<open>const x = g\<close> and calls
  \<open>getFromLLM\<close> again.
\<close>

theorem aborted_request_is_logged_and_refetched:
  "aborted (run (trigger 0 ''const x = f'' @ trigger 3 ''const x = fu'' @ trigger 5 ''const x = g'') init) = {2}
   \<and> map snd (waiters (run (trigger 0 ''const x = f'' @ trigger 3 ''const x = fu''
                              @ trigger 5 ''const x = g'') init))
       = [Owner 1,
          Reuser \<lparr>prefix = ''const x = f'', suffix = testSuffix, promise = 2, abortController = 2\<rparr>
            (testPrompt ''const x = fu'') 4,
          Owner 6]
   \<and> trace (run (trigger 0 ''const x = f'' @ trigger 3 ''const x = fu'' @ trigger 5 ''const x = g''
                  @ [LlmSettles 2 (Returns ''unction test() {}'' testUsage)]) init)
       = [CallGetFromLLM 2 (testPrompt ''const x = f''),
          AbortSignal 2,
          CallGetFromLLM 7 (testPrompt ''const x = g''),
          ConsoleError (Thrown True ''Error'' ''Request aborted after completion''),
          ConsoleWarn (Thrown True ''Error'' ''Request aborted after completion''),
          AbortSignal 7,
          CallGetFromLLM 8 (testPrompt ''const x = fu'')]"
  by code_simp

lemma dispose_clears:
  "debounceTimer (dispose st) = None
   \<and> pendingRequests (dispose st) = []
   \<and> aborted (dispose st) = aborted st \<union> (abortController \<circ> snd) ` set (pendingRequests st)
   \<and> fst ` set (timers (dispose st)) = fst ` set (timers st) - set_option (debounceTimer st)
   \<and> suggestionsHistory (dispose st) = suggestionsHistory st"
  by (cases "debounceTimer st")
     (auto simp: dispose_def clearTimeout_def Let_def abortAll_frame abortAll_aborted AList.delete_eq)

lemma dispose_idempotent: "dispose (dispose st) = dispose st"
proof -
  have "debounceTimer (dispose st) = None" "pendingRequests (dispose st) = []"
    using dispose_clears[of st] by simp_all
  then show ?thesis by (simp add: dispose_def[of "dispose st"])
qed

text \<open>
  C9. The request for \<open>const x = f\<close> is aborted by a trigger at \<open>const x = g\<close>, and a
  third trigger, at \<open>const x = f\<close> again, starts a new request under the same key. When
  \<open>getFromLLM\<close> of the first request returns, its \<open>finally\<close> block deletes that key, and
  with it the entry of the third request, which is still under way. \<open>dispose\<close> then finds
  the map empty and aborts nothing; the third request returns afterwards and puts its
  result into the history.
\<close>

theorem request_in_flight_at_dispose_writes_history:
  "map fst (inflight (run (trigger 0 ''const x = f'' @ trigger 3 ''const x = g'' @ trigger 6 ''const x = f''
                           @ [LlmSettles 2 (Returns ''unction test() {}'' testUsage)]) init)) = [5, 8]
   \<and> pendingRequests (run (trigger 0 ''const x = f'' @ trigger 3 ''const x = g'' @ trigger 6 ''const x = f''
                           @ [LlmSettles 2 (Returns ''unction test() {}'' testUsage)]) init) = []
   \<and> aborted (run (trigger 0 ''const x = f'' @ trigger 3 ''const x = g'' @ trigger 6 ''const x = f''
                     @ [LlmSettles 2 (Returns ''unction test() {}'' testUsage), Dispose]) init) = {2, 5}
   \<and> suggestionsHistory (run (trigger 0 ''const x = f'' @ trigger 3 ''const x = g'' @ trigger 6 ''const x = f''
                     @ [LlmSettles 2 (Returns ''unction test() {}'' testUsage), Dispose]) init) = []
   \<and> suggestionsHistory (run (trigger 0 ''const x = f'' @ trigger 3 ''const x = g'' @ trigger 6 ''const x = f''
                     @ [LlmSettles 2 (Returns ''unction test() {}'' testUsage), Dispose,
                        LlmSettles 8 (Returns ''unction test() {}'' testUsage)]) init)
       = [\<lparr>prefix = ''const x = f'', suffix = testSuffix, text = ''unction test() {}''\<rparr>]"
  by code_simp

section \<open>Calls that wait for a reused request\<close>

lemma scanPending_mem: "scanPending p s pendingMap = Some r \<Longrightarrow> \<exists>k. (k, r) \<in> set pendingMap"
  using scanPending_Some[of p s pendingMap r] by auto

lemma findReusable_mem:
  assumes "findReusablePendingRequest p s pendingMap = Some r"
  shows "\<exists>k. (k, r) \<in> set pendingMap"
proof (cases "map_of pendingMap (getCacheKey p s)")
  case None
  with assms have "scanPending p s pendingMap = Some r" by (simp add: findReusablePendingRequest_def)
  then show ?thesis by (rule scanPending_mem)
next
  case (Some exact)
  with assms have "map_of pendingMap (getCacheKey p s) = Some r" by (simp add: findReusablePendingRequest_def)
  then show ?thesis by (blast dest: map_of_SomeD)
qed

lemma reuserOk_mono:
  assumes ok: "reuserOk st n w"
    and m: "\<And>p. map_of (inflight st) n = Some p \<Longrightarrow> map_of (inflight st') n = Some p"
  shows "reuserOk st' n w"
proof (cases w)
  case (Owner d)
  then show ?thesis by simp
next
  case (Reuser r prompt d)
  with ok obtain p0 where "map_of (inflight st) n = Some p0" "prefix p0 = prefix r" "suffix p0 = suffix r"
    by auto
  with m[of p0] have "\<exists>prompt0. map_of (inflight st') n = Some prompt0
             \<and> prefix prompt0 = prefix r \<and> suffix prompt0 = suffix r" by blast
  with ok Reuser show ?thesis by simp
qed

lemma waitOk_mono:
  assumes ok: "waitOk st"
    and w: "set (waiters st') \<subseteq> set (waiters st)"
    and m: "\<And>n p. n \<in> fst ` set (waiters st') \<Longrightarrow> map_of (inflight st) n = Some p
               \<Longrightarrow> map_of (inflight st') n = Some p"
  shows "waitOk st'"
  unfolding waitOk_def
proof (clarify)
  fix n x assume a: "(n, x) \<in> set (waiters st')"
  with w have "(n, x) \<in> set (waiters st)" by blast
  with ok have "reuserOk st n x" unfolding waitOk_def by blast
  moreover from a have "n \<in> fst ` set (waiters st')" by force
  ultimately show "reuserOk st' n x" using m by (intro reuserOk_mono[of st n x st']) blast+
qed

lemma waitOk_same:
  "waitOk st \<Longrightarrow> waiters st' = waiters st \<Longrightarrow> inflight st' = inflight st \<Longrightarrow> waitOk st'"
  by (rule waitOk_mono) simp_all

lemma waitOk_add_owner:
  assumes ok: "waitOk st"
    and w: "waiters st' = waiters st @ [(n', Owner d)]"
    and i: "inflight st' = inflight st @ [(n', prompt)]"
  shows "waitOk st'"
  unfolding waitOk_def
proof (clarify)
  fix n x assume "(n, x) \<in> set (waiters st')"
  then have "(n, x) \<in> set (waiters st) \<or> x = Owner d" using w by auto
  then show "reuserOk st' n x"
  proof
    assume "(n, x) \<in> set (waiters st)"
    with ok have "reuserOk st n x" unfolding waitOk_def by blast
    then show ?thesis by (rule reuserOk_mono) (simp add: i map_add_def)
  next
    assume "x = Owner d"
    then show ?thesis by simp
  qed
qed

lemma waitOk_startNewRequest:
  assumes ok: "waitOk st"
  shows "waitOk (startNewRequest prompt d st)"
proof (rule waitOk_add_owner[OF ok])
  show "waiters (startNewRequest prompt d st) = waiters st @ [(nextId st, Owner d)]"
    by (simp add: startNewRequest_frame)
  show "inflight (startNewRequest prompt d st) = inflight st @ [(nextId st, prompt)]"
    by (simp add: startNewRequest_frame)
qed

lemma waitOk_fetchAndCacheSuggestion:
  assumes r: "regOk st" and ok: "waitOk st"
  shows "waitOk (fetchAndCacheSuggestion prompt d st)"
proof (cases "findReusablePendingRequest (prefix prompt) (suffix prompt) (pendingRequests st)")
  case None
  then show ?thesis using ok by (simp add: fetchAndCacheSuggestion_def waitOk_startNewRequest)
next
  case (Some reusable)
  from findReusable_mem[OF Some] obtain k where m: "(k, reusable) \<in> set (pendingRequests st)" by blast
  with r have a: "abortController reusable = promise reusable"
    and "\<exists>p0. map_of (inflight st) (promise reusable) = Some p0
            \<and> prefix p0 = prefix reusable \<and> suffix p0 = suffix reusable"
    unfolding regOk_def by blast+
  moreover from r have "\<forall>(k, e) \<in> set (pendingRequests st). k = getCacheKey (prefix e) (suffix e)"
    unfolding regOk_def by blast
  ultimately have new: "reuserOk st (promise reusable) (Reuser reusable prompt d)"
    using Some by auto
  have e: "fetchAndCacheSuggestion prompt d st
      = st\<lparr>waiters := waiters st @ [(promise reusable, Reuser reusable prompt d)]\<rparr>"
    using Some by (simp add: fetchAndCacheSuggestion_def)
  show ?thesis unfolding e waitOk_def
  proof (clarify)
    fix n x
    assume "(n, x) \<in> set (waiters (st\<lparr>waiters := waiters st @ [(promise reusable, Reuser reusable prompt d)]\<rparr>))"
    then have "(n, x) \<in> set (waiters st) \<or> (n, x) = (promise reusable, Reuser reusable prompt d)" by auto
    then have "reuserOk st n x" using ok new unfolding waitOk_def by blast
    then show "reuserOk (st\<lparr>waiters := waiters st @ [(promise reusable, Reuser reusable prompt d)]\<rparr>) n x"
      by (rule reuserOk_mono) simp
  qed
qed

lemma waitOk_resumeWaiter: "waitOk st \<Longrightarrow> waitOk (resumeWaiter v w st)"
proof (cases v; cases w)
  fix e reusable prompt d
  assume ok: "waitOk st" and v: "v = Rejected e" and w: "w = Reuser reusable prompt d"
  have "waitOk (st\<lparr>trace := trace st @ [ConsoleWarn e]\<rparr>)" using ok by (rule waitOk_same) simp_all
  then have "waitOk (startNewRequest prompt d (st\<lparr>trace := trace st @ [ConsoleWarn e]\<rparr>))"
    by (rule waitOk_startNewRequest)
  moreover have "waitOk (finish d st)" using ok by (rule waitOk_same) (simp_all add: finish_def)
  ultimately show "waitOk (resumeWaiter v w st)" using v w by simp
qed (auto simp: finish_def updateSuggestions_def intro: waitOk_same)

lemma waitOk_fold_resumeWaiter: "waitOk st \<Longrightarrow> waitOk (fold (resumeWaiter v) ws st)"
  by (induction ws arbitrary: st) (simp_all add: waitOk_resumeWaiter)

lemma waitOk_llmSettles:
  assumes ok: "waitOk st"
  shows "waitOk (llmSettles n outcome st)"
proof (cases "map_of (inflight st) n")
  case None
  then show ?thesis using ok by (simp add: llmSettles_def)
next
  case (Some prompt)
  let ?st0 = "st\<lparr>inflight := AList.delete n (inflight st)\<rparr>"
  obtain v st1 where s: "settleRequest n prompt outcome ?st0 = (v, st1)"
    by (cases "settleRequest n prompt outcome ?st0")
  let ?st2 = "st1\<lparr>waiters := filter (\<lambda>(i, w). i \<noteq> n) (waiters st1)\<rparr>"
  let ?ws = "map snd (filter (\<lambda>(i, w). i = n) (waiters st1))"
  from settleRequest_frame[of n prompt outcome ?st0] s
  have fr: "waiters st1 = waiters st" "inflight st1 = AList.delete n (inflight st)" by simp_all
  have "waitOk ?st2"
  proof (rule waitOk_mono[OF ok])
    show "set (waiters ?st2) \<subseteq> set (waiters st)" using fr(1) by auto
  next
    fix m p assume "m \<in> fst ` set (waiters ?st2)" and mp: "map_of (inflight st) m = Some p"
    then have "m \<noteq> n" by auto
    then show "map_of (inflight ?st2) m = Some p" using mp fr(2) by (simp add: delete_conv')
  qed
  then have "waitOk (fold (resumeWaiter v) ?ws ?st2)" by (rule waitOk_fold_resumeWaiter)
  then have "waitOk (returnResolved (fold (resumeWaiter v) ?ws ?st2))"
    by (rule waitOk_same) (simp_all add: returnResolved_frame)
  then show ?thesis using Some s by (simp add: llmSettles_def)
qed

lemma waitOk_step: "regOk st \<Longrightarrow> waitOk st \<Longrightarrow> waitOk (step ev st)"
proof (cases ev)
  case (Provide gate p s position)
  assume ok: "waitOk st"
  have "waiters (provide gate p s position st) = waiters st \<and> inflight (provide gate p s position st) = inflight st"
    by (cases gate; cases "findMatchingSuggestion p s (suggestionsHistory st)")
       (simp_all add: provide_def Let_def)
  with ok Provide show ?thesis by (auto intro: waitOk_same)
next
  case (PromptResolves i prompt)
  assume ok: "waitOk st"
  have "waiters (promptResolves i prompt st) = waiters st \<and> inflight (promptResolves i prompt st) = inflight st"
    using debounce_frame[of prompt st]
    by (auto simp: promptResolves_def split: option.splits invocation.splits prod.splits)
  with ok PromptResolves show ?thesis by (auto intro: waitOk_same)
next
  case (PromptRejects i e)
  assume ok: "waitOk st"
  have "waiters (promptRejects i e st) = waiters st \<and> inflight (promptRejects i e st) = inflight st"
    by (auto simp: promptRejects_def split: option.splits invocation.splits)
  with ok PromptRejects show ?thesis by (auto intro: waitOk_same)
next
  case (TimerFires t)
  assume r: "regOk st" and ok: "waitOk st"
  show ?thesis
  proof (cases "map_of (timers st) t")
    case None
    with ok TimerFires show ?thesis by (simp add: timerFires_def)
  next
    case (Some prompt)
    let ?st0 = "st\<lparr>timers := AList.delete t (timers st), debounceTimer := None\<rparr>"
    have r0: "regOk ?st0" using r by (rule regOk_same[rotated 3]) simp_all
    have w0: "waitOk ?st0" using ok by (rule waitOk_same) simp_all
    from waitOk_fetchAndCacheSuggestion[OF r0 w0, of prompt t] Some TimerFires
    show ?thesis by (simp add: timerFires_def)
  qed
next
  case (LlmSettles n outcome)
  assume "waitOk st"
  with LlmSettles show ?thesis by (simp add: waitOk_llmSettles)
next
  case Dispose
  assume ok: "waitOk st"
  have "waiters (dispose st) = waiters st \<and> inflight (dispose st) = inflight st"
    by (cases "debounceTimer st") (simp_all add: dispose_def clearTimeout_def Let_def abortAll_frame)
  with ok Dispose show ?thesis by (auto intro: waitOk_same)
qed

lemma regOk_waitOk_run: "regOk st \<Longrightarrow> waitOk st \<Longrightarrow> waitOk (run es st)"
  unfolding run_def
proof (induction es arbitrary: st)
  case Nil
  then show ?case by simp
next
  case (Cons ev es)
  from Cons.prems have "regOk (step ev st)" "waitOk (step ev st)"
    by (simp_all add: regOk_step waitOk_step)
  from Cons.IH[OF this] show ?case by simp
qed

lemma waitOk_init: "waitOk init"
  by (simp add: waitOk_def init_def)

text \<open>
  In every run, when \<open>getFromLLM\<close> of request \<open>n\<close> ends, a call that waits for \<open>n\<close> as a
  reused request is among the calls that go on with the settled promise; the request was
  found in a map whose entries stand under their own keys; and when the promise is
  fulfilled, the result carries the prefix and suffix of the reused request.
\<close>

lemma reuser_resumed_with_own_result:
  assumes st: "st = run es init"
    and w: "(n, Reuser reusable prompt d) \<in> set (waiters st)"
  shows "\<exists>prompt0 v st1.
           map_of (inflight st) n = Some prompt0
           \<and> settleRequest n prompt0 outcome (st\<lparr>inflight := AList.delete n (inflight st)\<rparr>) = (v, st1)
           \<and> llmSettles n outcome st
               = returnResolved
                   (fold (resumeWaiter v) (map snd (filter (\<lambda>(i, w). i = n) (waiters st1)))
                      (st1\<lparr>waiters := filter (\<lambda>(i, w). i \<noteq> n) (waiters st1)\<rparr>))
           \<and> Reuser reusable prompt d \<in> set (map snd (filter (\<lambda>(i, w). i = n) (waiters st1)))
           \<and> (\<forall>result. v = Fulfilled result \<longrightarrow>
                 prefix (suggestion result) = prefix reusable
                 \<and> suffix (suggestion result) = suffix reusable)
           \<and> (\<exists>pendingMap. (\<forall>(k, e) \<in> set pendingMap. k = getCacheKey (prefix e) (suffix e))
                 \<and> findReusablePendingRequest (prefix prompt) (suffix prompt) pendingMap = Some reusable)"
proof -
  have "regOk st" unfolding st by (rule regOk_run) (rule regOk_init)
  then have "waitOk st" unfolding st using waitOk_init regOk_init by (intro regOk_waitOk_run)
  with w have ok: "reuserOk st n (Reuser reusable prompt d)" unfolding waitOk_def by blast
  then obtain prompt0 where p0: "map_of (inflight st) n = Some prompt0"
      "prefix prompt0 = prefix reusable" "suffix prompt0 = suffix reusable" by auto
  let ?st0 = "st\<lparr>inflight := AList.delete n (inflight st)\<rparr>"
  obtain v st1 where s: "settleRequest n prompt0 outcome ?st0 = (v, st1)"
    by (cases "settleRequest n prompt0 outcome ?st0")
  from settleRequest_frame[of n prompt0 outcome ?st0] s have fr: "waiters st1 = waiters st" by simp
  have a: "llmSettles n outcome st
               = returnResolved
                   (fold (resumeWaiter v) (map snd (filter (\<lambda>(i, w). i = n) (waiters st1)))
                      (st1\<lparr>waiters := filter (\<lambda>(i, w). i \<noteq> n) (waiters st1)\<rparr>))"
    using p0(1) s by (simp add: llmSettles_def)
  have b: "Reuser reusable prompt d \<in> set (map snd (filter (\<lambda>(i, w). i = n) (waiters st1)))"
    using w fr by force
  have c: "\<forall>result. v = Fulfilled result \<longrightarrow>
                 prefix (suggestion result) = prefix reusable
                 \<and> suffix (suggestion result) = suffix reusable"
  proof (intro allI impI)
    fix result assume "v = Fulfilled result"
    with s have "fst (settleRequest n prompt0 outcome ?st0) = Fulfilled result" by simp
    from settleRequest_Fulfilled[OF this] p0(2,3)
    show "prefix (suggestion result) = prefix reusable
                 \<and> suffix (suggestion result) = suffix reusable" by simp
  qed
  from ok have e: "\<exists>pendingMap. (\<forall>(k, e) \<in> set pendingMap. k = getCacheKey (prefix e) (suffix e))
                 \<and> findReusablePendingRequest (prefix prompt) (suffix prompt) pendingMap = Some reusable"
    by simp
  from p0(1) s a b c e show ?thesis by blast
qed

end
